theory Spec2Isabelle
  imports Complex_Main "HOL-Library.Word"
begin

unbundle bit_operations_syntax

section \<open>Python values, strings and errors\<close>

text \<open>
  The exceptions the modelled code can raise. Every raise of the source is an \<open>Inl\<close>
  result of the model.
\<close>

datatype py_error = ValueError | IndexError | ZeroDivisionError

text \<open>
  The values handed to the membership filter: \<open>None\<close>, a \<open>str\<close>, or any other object.
  An object that is neither is represented by the result of \<open>str(item)\<close>, which is all
  the code reads of it.
\<close>

datatype py_value = PyNone | PyStr string | PyObj string

text \<open>
  A character stands for the code point of the same number (0 to 255). Python's
  \<open>str.strip()\<close> removes the characters for which \<open>str.isspace\<close> holds; below 256 these are
  U+0009 to U+000D, U+001C to U+0020, U+0085 and U+00A0.
\<close>

definition py_isspace :: "char \<Rightarrow> bool" where
  "py_isspace c = ((of_char c :: nat) \<in> {9, 10, 11, 12, 13, 28, 29, 30, 31, 32, 133, 160})"

definition strip :: "string \<Rightarrow> string" where
  "strip s = rev (dropWhile py_isspace (rev (dropWhile py_isspace s)))"

text \<open>
  Indexing a list (or bytearray) the way Python does: a negative index counts from the
  end, and an index outside the list raises \<open>IndexError\<close>.
\<close>

definition py_index :: "'a list \<Rightarrow> int \<Rightarrow> py_error + nat" where
  "py_index xs i =
     (let n = int (length xs); j = (if i < 0 then i + n else i)
      in if 0 \<le> j \<and> j < n then Inr (nat j) else Inl IndexError)"

text \<open>\<open>range(n)\<close>: the integers from 0 up to \<open>n - 1\<close>, none when \<open>n \<le> 0\<close>.\<close>

definition py_range :: "int \<Rightarrow> int list" where
  "py_range n = map int [0..<nat n]"

section \<open>task1: the Bloom filter\<close>

text \<open>
  \<open>size\<close> is the number of bits, \<open>num_hashes\<close> the number of probes, \<open>_bits\<close> the
  bytearray holding the bits, eight to a byte.
\<close>

record BloomFilter =
  size_bf :: int
  num_hashes :: int
  bits :: "int list"

definition BloomFilter_init :: "int \<Rightarrow> int \<Rightarrow> py_error + BloomFilter" where
  "BloomFilter_init sz k =
     (if sz \<le> 0 then Inl ValueError
      else if k \<le> 0 then Inl ValueError
      else Inr \<lparr>size_bf = sz, num_hashes = k,
                bits = replicate (nat ((sz + 7) div 8)) 0\<rparr>)"

text \<open>
  \<open>self._bits[idx >> 3] |= (1 << (idx & 7))\<close>. Storing a value outside 0..255 in a
  bytearray raises \<open>ValueError\<close>.
\<close>

definition set_bit_bf :: "BloomFilter \<Rightarrow> int \<Rightarrow> py_error + BloomFilter" where
  "set_bit_bf bf idx =
     (case py_index (bits bf) (drop_bit 3 idx) of
        Inl e \<Rightarrow> Inl e
      | Inr k \<Rightarrow>
          (let v = (bits bf ! k) OR push_bit (nat (idx AND 7)) 1
           in if 0 \<le> v \<and> v < 256 then Inr (bf\<lparr>bits := (bits bf)[k := v]\<rparr>)
              else Inl ValueError))"

text \<open>\<open>(self._bits[idx >> 3] >> (idx & 7)) & 1\<close>\<close>

definition get_bit_bf :: "BloomFilter \<Rightarrow> int \<Rightarrow> py_error + int" where
  "get_bit_bf bf idx =
     (case py_index (bits bf) (drop_bit 3 idx) of
        Inl e \<Rightarrow> Inl e
      | Inr k \<Rightarrow> Inr (drop_bit (nat (idx AND 7)) (bits bf ! k) AND 1))"

fun normalize_item :: "py_value \<Rightarrow> string" where
  "normalize_item PyNone = ''''"
| "normalize_item (PyStr s) = s"
| "normalize_item (PyObj s) = s"

text \<open>
  \<open>mmh3.hash(s, i, signed=False) % self.size\<close>. The hash is the library's 32-bit
  MurmurHash3, taken as the parameter \<open>h\<close>; its result is an unsigned 32-bit integer.
  The remainder by zero raises \<open>ZeroDivisionError\<close>.
\<close>

definition bit_index :: "(string \<Rightarrow> int \<Rightarrow> 32 word) \<Rightarrow> BloomFilter \<Rightarrow> string \<Rightarrow> int
    \<Rightarrow> py_error + int" where
  "bit_index h bf s i =
     (if size_bf bf = 0 then Inl ZeroDivisionError
      else Inr (uint (h s i) mod size_bf bf))"

text \<open>The loop of \<open>add\<close> over the seeds still to be used.\<close>

fun add_loop :: "(string \<Rightarrow> int \<Rightarrow> 32 word) \<Rightarrow> BloomFilter \<Rightarrow> string \<Rightarrow> int list
    \<Rightarrow> py_error + BloomFilter" where
  "add_loop h bf s [] = Inr bf"
| "add_loop h bf s (i # seeds) =
     (case bit_index h bf s i of
        Inl e \<Rightarrow> Inl e
      | Inr idx \<Rightarrow>
          (case set_bit_bf bf idx of
             Inl e \<Rightarrow> Inl e
           | Inr bf' \<Rightarrow> add_loop h bf' s seeds))"

text \<open>\<open>add\<close> returns its boolean together with the filter after the call.\<close>

definition bf_add :: "(string \<Rightarrow> int \<Rightarrow> 32 word) \<Rightarrow> BloomFilter \<Rightarrow> py_value
    \<Rightarrow> py_error + (bool \<times> BloomFilter)" where
  "bf_add h bf item =
     (let s = normalize_item item
      in if strip s = '''' then Inr (False, bf)
         else (case add_loop h bf s (py_range (num_hashes bf)) of
                 Inl e \<Rightarrow> Inl e
               | Inr bf' \<Rightarrow> Inr (True, bf')))"

text \<open>The loop of \<open>contains\<close>: it returns \<open>False\<close> at the first probe whose bit is 0.\<close>

fun contains_loop :: "(string \<Rightarrow> int \<Rightarrow> 32 word) \<Rightarrow> BloomFilter \<Rightarrow> string \<Rightarrow> int list
    \<Rightarrow> py_error + bool" where
  "contains_loop h bf s [] = Inr True"
| "contains_loop h bf s (i # seeds) =
     (case bit_index h bf s i of
        Inl e \<Rightarrow> Inl e
      | Inr idx \<Rightarrow>
          (case get_bit_bf bf idx of
             Inl e \<Rightarrow> Inl e
           | Inr b \<Rightarrow> if b = 0 then Inr False else contains_loop h bf s seeds))"

definition bf_contains :: "(string \<Rightarrow> int \<Rightarrow> 32 word) \<Rightarrow> BloomFilter \<Rightarrow> py_value
    \<Rightarrow> py_error + bool" where
  "bf_contains h bf item =
     (let s = normalize_item item
      in if strip s = '''' then Inr False
         else contains_loop h bf s (py_range (num_hashes bf)))"

text \<open>A sequence of \<open>add\<close> calls on one filter, the returned booleans dropped.\<close>

fun add_all :: "(string \<Rightarrow> int \<Rightarrow> 32 word) \<Rightarrow> BloomFilter \<Rightarrow> py_value list
    \<Rightarrow> py_error + BloomFilter" where
  "add_all h bf [] = Inr bf"
| "add_all h bf (x # xs) =
     (case bf_add h bf x of
        Inl e \<Rightarrow> Inl e
      | Inr (r, bf') \<Rightarrow> add_all h bf' xs)"

subsection \<open>The batch check\<close>

text \<open>
  The three labels of \<open>check_password_uniqueness\<close>: "already used", "unique" and
  "invalid (empty/None)", which the source writes in Ukrainian.
\<close>

datatype status = AlreadyUsed | Unique | Invalid

text \<open>
  The key of the result dictionary:
  \<open>"None" if p is None else (p if isinstance(p, str) else str(p))\<close>.
\<close>

fun key_of :: "py_value \<Rightarrow> string" where
  "key_of PyNone = ''None''"
| "key_of (PyStr s) = s"
| "key_of (PyObj s) = s"

text \<open>\<open>p is None or (isinstance(p, str) and p.strip() == "")\<close>\<close>

fun is_invalid :: "py_value \<Rightarrow> bool" where
  "is_invalid PyNone = True"
| "is_invalid (PyStr s) = (strip s = '''')"
| "is_invalid (PyObj s) = False"

text \<open>
  The loop of \<open>check_password_uniqueness\<close>, with the result dictionary and the filter as
  they stand before the remaining items.
\<close>

fun check_loop :: "(string \<Rightarrow> int \<Rightarrow> 32 word) \<Rightarrow> BloomFilter \<Rightarrow> (string \<rightharpoonup> status)
    \<Rightarrow> py_value list \<Rightarrow> py_error + ((string \<rightharpoonup> status) \<times> BloomFilter)" where
  "check_loop h bloom results [] = Inr (results, bloom)"
| "check_loop h bloom results (p # ps) =
     (let key = key_of p
      in if is_invalid p then check_loop h bloom (results(key \<mapsto> Invalid)) ps
         else (case bf_contains h bloom p of
                 Inl e \<Rightarrow> Inl e
               | Inr True \<Rightarrow> check_loop h bloom (results(key \<mapsto> AlreadyUsed)) ps
               | Inr False \<Rightarrow>
                   (case bf_add h bloom p of
                      Inl e \<Rightarrow> Inl e
                    | Inr (r, bloom') \<Rightarrow> check_loop h bloom' (results(key \<mapsto> Unique)) ps)))"

definition check_password_uniqueness :: "(string \<Rightarrow> int \<Rightarrow> 32 word) \<Rightarrow> BloomFilter
    \<Rightarrow> py_value list \<Rightarrow> py_error + ((string \<rightharpoonup> status) \<times> BloomFilter)" where
  "check_password_uniqueness h bloom new_passwords = check_loop h bloom Map.empty new_passwords"

text \<open>
  The calls a caller can make on a filter during its lifetime, and a sequence of them run
  on one filter. \<open>contains\<close> hands back the filter as it found it.
\<close>

datatype bf_call = Add py_value | Contains py_value | Check "py_value list"

fun run_calls :: "(string \<Rightarrow> int \<Rightarrow> 32 word) \<Rightarrow> BloomFilter \<Rightarrow> bf_call list
    \<Rightarrow> py_error + BloomFilter" where
  "run_calls h bf [] = Inr bf"
| "run_calls h bf (Add x # cs) =
     (case bf_add h bf x of
        Inl e \<Rightarrow> Inl e
      | Inr (r, bf') \<Rightarrow> run_calls h bf' cs)"
| "run_calls h bf (Contains x # cs) =
     (case bf_contains h bf x of
        Inl e \<Rightarrow> Inl e
      | Inr r \<Rightarrow> run_calls h bf cs)"
| "run_calls h bf (Check ps # cs) =
     (case check_password_uniqueness h bf ps of
        Inl e \<Rightarrow> Inl e
      | Inr (results, bf') \<Rightarrow> run_calls h bf' cs)"

text \<open>
  The state invariant of a filter: a positive size, one byte for every eight bits, and
  every byte within 0..255.
\<close>

definition bf_wf :: "BloomFilter \<Rightarrow> bool" where
  "bf_wf bf = (0 < size_bf bf \<and> int (length (bits bf)) = (size_bf bf + 7) div 8
      \<and> list_all (\<lambda>b. 0 \<le> b \<and> b < 256) (bits bf))"

text \<open>
  A stand-in for the library hash, used only where the model is evaluated at a concrete
  input.
\<close>

definition sample_hash :: "string \<Rightarrow> int \<Rightarrow> 32 word" where
  "sample_hash s i = word_of_int (int (length s) + i)"

section \<open>task2: HyperLogLog and the log reader\<close>

subsection \<open>HyperLogLog\<close>

text \<open>
  \<open>p\<close> is the number of index bits, \<open>m = 2^p\<close> the number of registers, \<open>registers\<close> a
  bytearray of \<open>m\<close> bytes. Python's floats are modelled by real numbers: the model computes
  the values that \<open>count\<close> approximates in double precision, without the rounding.
\<close>

record HyperLogLog =
  p_hll :: int
  m_hll :: int
  registers :: "int list"
  alpha :: real

definition HyperLogLog_init :: "int \<Rightarrow> py_error + HyperLogLog" where
  "HyperLogLog_init p =
     (if p < 4 \<or> p > 18 then Inl ValueError
      else (let m = push_bit (nat p) (1::int)
            in Inr \<lparr>p_hll = p, m_hll = m, registers = replicate (nat m) 0,
                     alpha = (if m = 16 then 0.673
                              else if m = 32 then 0.697
                              else if m = 64 then 0.709
                              else 0.7213 / (1.0 + 1.079 / real_of_int m))\<rparr>))"

text \<open>\<open>int.bit_length()\<close>: the number of bits of the absolute value, 0 for 0.\<close>

fun bit_length_nat :: "nat \<Rightarrow> nat" where
  "bit_length_nat n = (if n = 0 then 0 else Suc (bit_length_nat (n div 2)))"

declare bit_length_nat.simps [simp del]

definition bit_length :: "int \<Rightarrow> int" where
  "bit_length x = int (bit_length_nat (nat \<bar>x\<bar>))"

definition clz64 :: "int \<Rightarrow> int" where
  "clz64 x = 64 - bit_length x"

text \<open>
  \<open>add\<close>. The hash (the first eight bytes of SHA-256, read big-endian) is the parameter
  \<open>hash64\<close>; its result is an unsigned 64-bit integer. A shift by a negative count raises
  \<open>ValueError\<close>, and so does storing a value outside 0..255 in the bytearray.
\<close>

definition hll_add :: "(string \<Rightarrow> 64 word) \<Rightarrow> HyperLogLog \<Rightarrow> string
    \<Rightarrow> py_error + HyperLogLog" where
  "hll_add hash64 hll item =
     (let x = uint (hash64 item)
      in if 64 - p_hll hll < 0 \<or> p_hll hll < 0 then Inl ValueError
         else (let j = drop_bit (nat (64 - p_hll hll)) x;
                   w = push_bit (nat (p_hll hll)) x AND (push_bit 64 1 - 1);
                   rho = (if w = 0 then 64 - p_hll hll + 1 else clz64 w + 1)
               in case py_index (registers hll) j of
                    Inl e \<Rightarrow> Inl e
                  | Inr k \<Rightarrow>
                      if rho > registers hll ! k
                      then (if 0 \<le> rho \<and> rho < 256
                            then Inr (hll\<lparr>registers := (registers hll)[k := rho]\<rparr>)
                            else Inl ValueError)
                      else Inr hll))"

text \<open>A sequence of \<open>add\<close> calls on one estimator.\<close>

fun hll_add_all :: "(string \<Rightarrow> 64 word) \<Rightarrow> HyperLogLog \<Rightarrow> string list
    \<Rightarrow> py_error + HyperLogLog" where
  "hll_add_all hash64 hll [] = Inr hll"
| "hll_add_all hash64 hll (x # xs) =
     (case hll_add hash64 hll x of
        Inl e \<Rightarrow> Inl e
      | Inr hll' \<Rightarrow> hll_add_all hash64 hll' xs)"

text \<open>
  The loop of \<open>count\<close>, with the accumulators \<open>inv_sum\<close> and \<open>zeros\<close> as they stand before the
  remaining registers.
\<close>

fun count_loop :: "real \<Rightarrow> int \<Rightarrow> int list \<Rightarrow> real \<times> int" where
  "count_loop inv_sum zeros [] = (inv_sum, zeros)"
| "count_loop inv_sum zeros (r # rs) =
     count_loop (inv_sum + 2 powr (- real_of_int r)) (if r = 0 then zeros + 1 else zeros) rs"

text \<open>\<open>math.log\<close> raises \<open>ValueError\<close> outside its domain; a float division by zero raises.\<close>

definition py_log :: "real \<Rightarrow> py_error + real" where
  "py_log x = (if x \<le> 0 then Inl ValueError else Inr (ln x))"

definition hll_count :: "HyperLogLog \<Rightarrow> py_error + real" where
  "hll_count hll =
     (case count_loop 0 0 (registers hll) of
        (inv_sum, zeros) \<Rightarrow>
          if inv_sum = 0 then Inl ZeroDivisionError
          else (let e = alpha hll * real_of_int ((m_hll hll) ^ 2) / inv_sum
                in case (if e \<le> 2.5 * real_of_int (m_hll hll) \<and> zeros > 0
                         then (case py_log (real_of_int (m_hll hll) / real_of_int zeros) of
                                 Inl err \<Rightarrow> Inl err
                               | Inr l \<Rightarrow> Inr (real_of_int (m_hll hll) * l))
                         else Inr e) of
                     Inl err \<Rightarrow> Inl err
                   | Inr e1 \<Rightarrow>
                       if e1 > (1.0 / 30.0) * 2 ^ 64
                       then (case py_log (1.0 - e1 / 2 ^ 64) of
                               Inl err \<Rightarrow> Inl err
                             | Inr l \<Rightarrow> Inr (- (2 ^ 64) * l))
                       else Inr e1))"

text \<open>
  The wording of the specification, to compare the code with: the bucket index is the top
  \<open>p\<close> bits of the 64-bit hash, the suffix the remaining \<open>64 - p\<close> bits, and \<open>rho\<close> is one
  more than the number of leading zero bits of the suffix seen as a value of \<open>64 - p\<close> bits
  (the bits are read from the most significant one downwards).
\<close>

definition leading_zero_bits :: "nat \<Rightarrow> int \<Rightarrow> nat" where
  "leading_zero_bits width v = length (takeWhile (\<lambda>i. \<not> bit v i) (rev [0..<width]))"

definition bucket_spec :: "nat \<Rightarrow> int \<Rightarrow> int" where
  "bucket_spec p x = drop_bit (64 - p) x"

definition suffix_spec :: "nat \<Rightarrow> int \<Rightarrow> int" where
  "suffix_spec p x = take_bit (64 - p) x"

definition rho_spec :: "nat \<Rightarrow> int \<Rightarrow> int" where
  "rho_spec p x = 1 + int (leading_zero_bits (64 - p) (suffix_spec p x))"

text \<open>
  The estimate in the wording of the specification: the raw estimate, the small-range
  correction, then the large-range correction.
\<close>

definition raw_estimate :: "HyperLogLog \<Rightarrow> real" where
  "raw_estimate hll =
     alpha hll * (real_of_int (m_hll hll))\<^sup>2 / (\<Sum>r\<leftarrow>registers hll. 2 powr (- real_of_int r))"

definition zero_register_count :: "HyperLogLog \<Rightarrow> nat" where
  "zero_register_count hll = length (filter (\<lambda>r. r = 0) (registers hll))"

definition small_range_estimate :: "HyperLogLog \<Rightarrow> real" where
  "small_range_estimate hll =
     (if raw_estimate hll \<le> 2.5 * real_of_int (m_hll hll) \<and> 1 \<le> zero_register_count hll
      then real_of_int (m_hll hll)
             * ln (real_of_int (m_hll hll) / real (zero_register_count hll))
      else raw_estimate hll)"

definition count_spec :: "HyperLogLog \<Rightarrow> real" where
  "count_spec hll =
     (if small_range_estimate hll > 2 ^ 64 / 30
      then - (2 ^ 64) * ln (1 - small_range_estimate hll / 2 ^ 64)
      else small_range_estimate hll)"

text \<open>The state invariant of an estimator built by the constructor.\<close>

definition hll_wf :: "HyperLogLog \<Rightarrow> bool" where
  "hll_wf hll = (4 \<le> p_hll hll \<and> p_hll hll \<le> 18 \<and> m_hll hll = 2 ^ nat (p_hll hll)
      \<and> length (registers hll) = 2 ^ nat (p_hll hll)
      \<and> list_all (\<lambda>r. 0 \<le> r \<and> r < 256) (registers hll))"

text \<open>A stand-in for the 64-bit hash, used only where the model is evaluated.\<close>

definition sample_hash64 :: "string \<Rightarrow> 64 word" where
  "sample_hash64 s = push_bit 60 (word_of_nat (length s)) + word_of_nat (length s)"

subsection \<open>Extracting the client address from a log record\<close>

text \<open>
  A field of a parsed record is a string or some other JSON value; the record is a
  dictionary from field names to values. Whether \<open>ipaddress.ip_address(s)\<close> accepts \<open>s\<close>
  (returns without \<open>ValueError\<close>) is the parameter \<open>valid\<close>.
\<close>

datatype json_value = JStr string | JOther

definition dict_get :: "(string \<rightharpoonup> json_value) \<Rightarrow> string \<Rightarrow> json_value \<Rightarrow> json_value" where
  "dict_get obj key dflt = (case obj key of None \<Rightarrow> dflt | Some v \<Rightarrow> v)"

definition validate_ip :: "(string \<Rightarrow> bool) \<Rightarrow> string \<Rightarrow> string option" where
  "validate_ip valid s0 =
     (let s = strip s0
      in if s = '''' then None
         else if valid s then Some s else None)"

text \<open>\<open>xff.split(",")[0]\<close>: the text before the first comma.\<close>

definition split_first :: "string \<Rightarrow> string" where
  "split_first s = takeWhile (\<lambda>c. c \<noteq> CHR '','') s"

text \<open>\<open>if ip:\<close> holds for a string that is not empty, and not for \<open>None\<close>.\<close>

fun truthy :: "string option \<Rightarrow> bool" where
  "truthy None = False"
| "truthy (Some s) = (s \<noteq> '''')"

definition extract_client_ip :: "(string \<Rightarrow> bool) \<Rightarrow> (string \<rightharpoonup> json_value)
    \<Rightarrow> string option" where
  "extract_client_ip valid obj =
     (let xff = dict_get obj ''http_x_forwarded_for'' (JStr '''');
          ip1 = (case xff of
                   JStr x \<Rightarrow> if strip x \<noteq> '''' then validate_ip valid (strip (split_first x))
                              else None
                 | JOther \<Rightarrow> None)
      in if truthy ip1 then ip1
         else (let ra = dict_get obj ''remote_addr'' (JStr '''');
                   ip2 = (case ra of
                            JStr r \<Rightarrow> if strip r \<noteq> '''' then validate_ip valid r else None
                          | JOther \<Rightarrow> None)
               in if truthy ip2 then ip2 else None))"

text \<open>
  The priority rule in the wording of the specification: the trimmed first token of the
  forwarded-for field when the field is a non-empty string and the token is a valid
  address; otherwise the remote-address field under the same check (trimmed and valid);
  otherwise nothing.
\<close>

definition valid_address :: "(string \<Rightarrow> bool) \<Rightarrow> string \<Rightarrow> bool" where
  "valid_address valid s = (s \<noteq> '''' \<and> valid s)"

definition remote_addr_spec :: "(string \<Rightarrow> bool) \<Rightarrow> (string \<rightharpoonup> json_value)
    \<Rightarrow> string option" where
  "remote_addr_spec valid obj =
     (case obj ''remote_addr'' of
        Some (JStr r) \<Rightarrow> if valid_address valid (strip r) then Some (strip r) else None
      | _ \<Rightarrow> None)"

definition client_ip_spec :: "(string \<Rightarrow> bool) \<Rightarrow> (string \<rightharpoonup> json_value)
    \<Rightarrow> string option" where
  "client_ip_spec valid obj =
     (case obj ''http_x_forwarded_for'' of
        Some (JStr x) \<Rightarrow>
          if x \<noteq> '''' \<and> valid_address valid (strip (split_first x))
          then Some (strip (split_first x))
          else remote_addr_spec valid obj
      | _ \<Rightarrow> remote_addr_spec valid obj)"

text \<open>A stand-in for the address parser, used only where the model is evaluated.\<close>

definition sample_valid :: "string \<Rightarrow> bool" where
  "sample_valid s = (s \<in> {''203.0.113.5'', ''198.51.100.7'', ''10.0.0.2''})"

section \<open>Properties of the Bloom filter\<close>

subsection \<open>Auxiliary facts\<close>

lemma strip_empty_iff: "strip s = '''' \<longleftrightarrow> (\<forall>c\<in>set s. py_isspace c)"
proof
  assume a: "strip s = ''''"
  have "dropWhile py_isspace s = []"
  proof (rule ccontr)
    assume n: "dropWhile py_isspace s \<noteq> []"
    then have h: "\<not> py_isspace (hd (dropWhile py_isspace s))" by (rule hd_dropWhile)
    from a have "\<forall>x\<in>set (dropWhile py_isspace s). py_isspace x"
      by (simp add: strip_def dropWhile_eq_Nil_conv)
    with n h show False by (metis hd_in_set)
  qed
  then show "\<forall>c\<in>set s. py_isspace c" by (simp add: dropWhile_eq_Nil_conv)
next
  assume "\<forall>c\<in>set s. py_isspace c"
  then have "dropWhile py_isspace s = []" by (simp add: dropWhile_eq_Nil_conv)
  then show "strip s = ''''" unfolding strip_def by (simp del: dropWhile_eq_Nil_conv)
qed

lemma init_wf: "BloomFilter_init sz k = Inr bf \<Longrightarrow> bf_wf bf \<and> size_bf bf = sz \<and> num_hashes bf = k"
  by (auto simp: BloomFilter_init_def bf_wf_def list_all_iff split: if_splits)

lemma py_index_ok: "0 \<le> i \<Longrightarrow> i < int (length xs) \<Longrightarrow> py_index xs i = Inr (nat i)"
  by (simp add: py_index_def Let_def)

lemma py_index_lt: "py_index xs i = Inr k \<Longrightarrow> k < length xs"
  by (auto simp: py_index_def Let_def split: if_splits)

lemma py_index_length: "length xs = length ys \<Longrightarrow> py_index xs i = py_index ys i"
  by (simp add: py_index_def)

lemma byte_index_bound:
  assumes "0 \<le> idx" "idx < sz"
  shows "0 \<le> drop_bit 3 idx \<and> drop_bit 3 idx < (sz + 7) div (8::int)"
  using assms by (simp add: drop_bit_int_def) linarith

lemma and7_mod: "(idx::int) AND 7 = idx mod 8"
  using take_bit_eq_mask[of 3 idx] by (simp add: take_bit_int_def mask_eq_exp_minus_1)

lemma and7: "nat ((idx::int) AND 7) < 8"
  by (simp add: and7_mod)

lemma get_bit_alt:
  "get_bit_bf bf idx = (case py_index (bits bf) (drop_bit 3 idx) of Inl e \<Rightarrow> Inl e
      | Inr k \<Rightarrow> Inr (if bit (bits bf ! k) (nat (idx AND 7)) then 1 else 0))"
  by (auto simp add: get_bit_bf_def and_one_eq bit_iff_odd_drop_bit odd_iff_mod_2_eq_one split: sum.splits) 

lemma byte_or_bound:
  assumes "0 \<le> (b::int)" "b < 256" "n < 8"
  shows "0 \<le> b OR push_bit n 1 \<and> b OR push_bit n 1 < 256"
proof -
  have "(2::int) ^ n < 2 ^ 8" using assms(3) by (simp only: power_strict_increasing_iff) 
  then have "b OR 2 ^ n < 2 ^ 8" using assms by (intro OR_upper) simp_all
  moreover have "0 \<le> b OR 2 ^ n" using assms by simp
  ultimately show ?thesis by (simp add: push_bit_eq_mult)
qed

lemma set_bit_mono:
  assumes "set_bit_bf bf idx = Inr bf'" "get_bit_bf bf j = Inr 1"
  shows "get_bit_bf bf' j = Inr 1"
proof -
  from assms(1) obtain k where k: "py_index (bits bf) (drop_bit 3 idx) = Inr k"
    and bf': "bf' = bf\<lparr>bits := (bits bf)[k := (bits bf ! k) OR push_bit (nat (idx AND 7)) 1]\<rparr>"
    by (auto simp: set_bit_bf_def Let_def split: sum.splits if_splits)
  from assms(2) obtain kj where kj: "py_index (bits bf) (drop_bit 3 j) = Inr kj"
    and b: "bit (bits bf ! kj) (nat (j AND 7))"
    by (auto simp: get_bit_alt split: sum.splits if_splits)
  have len: "length (bits bf') = length (bits bf)" by (simp add: bf')
  have kj': "py_index (bits bf') (drop_bit 3 j) = Inr kj"
    using kj py_index_length[OF len] by simp
  have "bit (bits bf' ! kj) (nat (j AND 7))"
    using b py_index_lt[OF k] by (cases "kj = k") (simp_all add: bf' bit_or_iff)
  then show ?thesis using kj' by (simp add: get_bit_alt)
qed

lemma set_bit_ok:
  assumes "bf_wf bf" "0 \<le> idx" "idx < size_bf bf"
  shows "\<exists>bf'. set_bit_bf bf idx = Inr bf' \<and> bf_wf bf' \<and> size_bf bf' = size_bf bf
           \<and> num_hashes bf' = num_hashes bf \<and> get_bit_bf bf' idx = Inr 1"
proof -
  let ?k = "nat (drop_bit 3 idx)"
  let ?v = "(bits bf ! ?k) OR push_bit (nat (idx AND 7)) 1"
  have bnd: "0 \<le> drop_bit 3 idx" "drop_bit 3 idx < int (length (bits bf))"
    using byte_index_bound[OF assms(2,3)] assms(1) by (simp_all add: bf_wf_def)
  then have k: "py_index (bits bf) (drop_bit 3 idx) = Inr ?k" by (rule py_index_ok)
  have klt: "?k < length (bits bf)" using bnd nat_less_iff by blast
  have "0 \<le> bits bf ! ?k \<and> bits bf ! ?k < 256"
    using assms(1) klt by (simp add: bf_wf_def list_all_length)
  then have v: "0 \<le> ?v \<and> ?v < 256" using byte_or_bound and7 by blast
  let ?bf' = "bf\<lparr>bits := (bits bf)[?k := ?v]\<rparr>"
  have s: "set_bit_bf bf idx = Inr ?bf'" using k v by (simp add: set_bit_bf_def Let_def)
  have old: "\<forall>b\<in>set (bits bf). 0 \<le> b \<and> b < 256"
    using assms(1) by (simp add: bf_wf_def list_all_iff)
  have "\<forall>b\<in>set ((bits bf)[?k := ?v]). 0 \<le> b \<and> b < 256"
  proof
    fix b assume "b \<in> set ((bits bf)[?k := ?v])"
    then have "b = ?v \<or> b \<in> set (bits bf)"
      using set_update_subset_insert[of "bits bf" ?k ?v] by blast
    then show "0 \<le> b \<and> b < 256" using old v by blast
  qed
  then have "list_all (\<lambda>b. 0 \<le> b \<and> b < 256) ((bits bf)[?k := ?v])"
    by (simp only: list_all_iff)
  then have wf: "bf_wf ?bf'" using assms(1) by (simp add: bf_wf_def)
  have k': "py_index (bits ?bf') (drop_bit 3 idx) = Inr ?k"
    using k py_index_length[of "bits ?bf'" "bits bf"] by simp
  have g0: "get_bit_bf ?bf' idx = Inr (if bit (bits ?bf' ! ?k) (nat (idx AND 7)) then 1 else 0)"
    by (simp only: get_bit_alt k' sum.case)
  have "bit (bits ?bf' ! ?k) (nat (idx AND 7))"
    using klt by (simp add: bit_or_iff bit_exp_iff)
  then have g: "get_bit_bf ?bf' idx = Inr 1" using g0 by simp
  show ?thesis using s wf g by auto
qed


lemma add_loop_mono:
  "add_loop h bf s seeds = Inr bf' \<Longrightarrow> get_bit_bf bf j = Inr 1 \<Longrightarrow> get_bit_bf bf' j = Inr 1"
proof (induction seeds arbitrary: bf)
  case Nil
  then show ?case by simp
next
  case (Cons i seeds)
  from Cons.prems(1) obtain idx bf1 where "set_bit_bf bf idx = Inr bf1"
    and l: "add_loop h bf1 s seeds = Inr bf'"
    by (auto split: sum.splits)
  then have "get_bit_bf bf1 j = Inr 1" using set_bit_mono Cons.prems(2) by blast
  then show ?case using Cons.IH[OF l] by simp
qed

lemma add_loop_ok:
  assumes "bf_wf bf"
  shows "\<exists>bf'. add_loop h bf s seeds = Inr bf' \<and> bf_wf bf' \<and> size_bf bf' = size_bf bf
           \<and> num_hashes bf' = num_hashes bf
           \<and> (\<forall>i\<in>set seeds. get_bit_bf bf' (uint (h s i) mod size_bf bf) = Inr 1)"
  using assms
proof (induction seeds arbitrary: bf)
  case Nil
  then show ?case by simp
next
  case (Cons i seeds)
  let ?idx = "uint (h s i) mod size_bf bf"
  have pos: "0 < size_bf bf" using Cons.prems by (simp add: bf_wf_def)
  then have bi: "bit_index h bf s i = Inr ?idx" by (simp add: bit_index_def)
  have "0 \<le> ?idx" "?idx < size_bf bf" using pos by simp_all
  from set_bit_ok[OF Cons.prems this] obtain bf1 where
    s1: "set_bit_bf bf ?idx = Inr bf1" and wf1: "bf_wf bf1"
    and sz1: "size_bf bf1 = size_bf bf" and k1: "num_hashes bf1 = num_hashes bf"
    and g1: "get_bit_bf bf1 ?idx = Inr 1" by blast
  from Cons.IH[OF wf1] obtain bf2 where
    l2: "add_loop h bf1 s seeds = Inr bf2" and wf2: "bf_wf bf2"
    and sz2: "size_bf bf2 = size_bf bf1" and k2: "num_hashes bf2 = num_hashes bf1"
    and g2: "\<forall>i\<in>set seeds. get_bit_bf bf2 (uint (h s i) mod size_bf bf1) = Inr 1" by blast
  have m: "get_bit_bf bf2 ?idx = Inr 1" using add_loop_mono[OF l2 g1] .
  show ?case using bi s1 l2 wf2 sz1 sz2 k1 k2 g2 m by simp
qed

lemma contains_loop_true:
  assumes "size_bf bf \<noteq> 0" "\<forall>i\<in>set seeds. get_bit_bf bf (uint (h s i) mod size_bf bf) = Inr 1"
  shows "contains_loop h bf s seeds = Inr True"
  using assms by (induction seeds) (simp_all add: bit_index_def)

lemma bf_add_ok:
  assumes "bf_wf bf"
  shows "\<exists>r bf'. bf_add h bf item = Inr (r, bf') \<and> bf_wf bf' \<and> size_bf bf' = size_bf bf
           \<and> num_hashes bf' = num_hashes bf \<and> r = (strip (normalize_item item) \<noteq> '''')
           \<and> (r \<longrightarrow> (\<forall>i\<in>set (py_range (num_hashes bf)).
                  get_bit_bf bf' (uint (h (normalize_item item) i) mod size_bf bf) = Inr 1))"
proof (cases "strip (normalize_item item) = ''''")
  case True
  then show ?thesis using assms
    by (intro exI[of _ False] exI[of _ bf]) (simp add: bf_add_def)
next
  case False
  from add_loop_ok[OF assms, of h "normalize_item item" "py_range (num_hashes bf)"]
  obtain bf' where l: "add_loop h bf (normalize_item item) (py_range (num_hashes bf)) = Inr bf'"
    and wf: "bf_wf bf'" and sz: "size_bf bf' = size_bf bf" and k: "num_hashes bf' = num_hashes bf"
    and g: "\<forall>i\<in>set (py_range (num_hashes bf)).
              get_bit_bf bf' (uint (h (normalize_item item) i) mod size_bf bf) = Inr 1"
    by blast
  show ?thesis using False l wf sz k g
    by (intro exI[of _ True] exI[of _ bf']) (simp add: bf_add_def)
qed

lemma bf_add_mono:
  "bf_add h bf item = Inr (r, bf') \<Longrightarrow> get_bit_bf bf j = Inr 1 \<Longrightarrow> get_bit_bf bf' j = Inr 1"
  by (auto simp: bf_add_def Let_def split: if_splits sum.splits dest: add_loop_mono)

lemma add_all_mono:
  "add_all h bf xs = Inr bf' \<Longrightarrow> get_bit_bf bf j = Inr 1 \<Longrightarrow> get_bit_bf bf' j = Inr 1"
proof (induction xs arbitrary: bf)
  case Nil
  then show ?case by simp
next
  case (Cons x xs)
  from Cons.prems(1) obtain r bf1 where a: "bf_add h bf x = Inr (r, bf1)"
    and l: "add_all h bf1 xs = Inr bf'"
    by (auto split: sum.splits prod.splits)
  show ?case using Cons.IH[OF l] bf_add_mono[OF a Cons.prems(2)] by simp
qed

lemma add_all_ok:
  assumes "bf_wf bf"
  shows "\<exists>bf'. add_all h bf xs = Inr bf' \<and> bf_wf bf' \<and> size_bf bf' = size_bf bf
           \<and> num_hashes bf' = num_hashes bf"
  using assms
proof (induction xs arbitrary: bf)
  case Nil
  then show ?case by simp
next
  case (Cons x xs)
  from bf_add_ok[OF Cons.prems, of h x] obtain r bf1 where a: "bf_add h bf x = Inr (r, bf1)"
    and wf: "bf_wf bf1" and e: "size_bf bf1 = size_bf bf" "num_hashes bf1 = num_hashes bf"
    by blast
  from Cons.IH[OF wf] show ?case using a e by simp
qed

lemma get_bit_ok:
  assumes "bf_wf bf" "0 \<le> idx" "idx < size_bf bf"
  shows "\<exists>b. get_bit_bf bf idx = Inr b"
proof -
  have "0 \<le> drop_bit 3 idx" "drop_bit 3 idx < int (length (bits bf))"
    using byte_index_bound[OF assms(2,3)] assms(1) by (simp_all add: bf_wf_def)
  then have "py_index (bits bf) (drop_bit 3 idx) = Inr (nat (drop_bit 3 idx))"
    by (rule py_index_ok)
  then show ?thesis by (simp add: get_bit_bf_def)
qed

lemma contains_loop_ok:
  assumes "bf_wf bf"
  shows "\<exists>r. contains_loop h bf s seeds = Inr r"
proof (induction seeds)
  case Nil
  show ?case by (intro exI[of _ True]) simp
next
  case (Cons i seeds)
  let ?idx = "uint (h s i) mod size_bf bf"
  have pos: "0 < size_bf bf" using assms by (simp add: bf_wf_def)
  then have bi: "bit_index h bf s i = Inr ?idx" by (simp add: bit_index_def)
  have "0 \<le> ?idx" "?idx < size_bf bf" using pos by simp_all
  from get_bit_ok[OF assms this] obtain b where g: "get_bit_bf bf ?idx = Inr b" by blast
  show ?case
  proof (cases "b = 0")
    case True
    then have "contains_loop h bf s (i # seeds) = Inr False" using bi g by simp
    then show ?thesis by blast
  next
    case False
    then have "contains_loop h bf s (i # seeds) = contains_loop h bf s seeds" using bi g by simp
    then show ?thesis using Cons.IH by simp
  qed
qed

lemma bf_contains_ok:
  assumes "bf_wf bf"
  shows "\<exists>r. bf_contains h bf item = Inr r"
proof (cases "strip (normalize_item item) = []")
  case True
  then have "bf_contains h bf item = Inr False" by (simp add: bf_contains_def)
  then show ?thesis by blast
next
  case False
  then show ?thesis using contains_loop_ok[OF assms] by (simp add: bf_contains_def)
qed

lemma check_loop_ok:
  assumes "bf_wf bf"
  shows "\<exists>res bf'. check_loop h bf results ps = Inr (res, bf') \<and> bf_wf bf'
           \<and> size_bf bf' = size_bf bf \<and> num_hashes bf' = num_hashes bf"
  using assms
proof (induction ps arbitrary: bf results)
  case Nil
  then show ?case by simp
next
  case (Cons p ps)
  show ?case
  proof (cases "is_invalid p")
    case True
    then show ?thesis using Cons.IH[OF Cons.prems] by simp
  next
    case False
    from bf_contains_ok[OF Cons.prems, of h p] obtain r where c: "bf_contains h bf p = Inr r"
      by blast
    show ?thesis
    proof (cases r)
      case True
      then show ?thesis using False c Cons.IH[OF Cons.prems] by simp
    next
      case nr: False
      from bf_add_ok[OF Cons.prems, of h p] obtain r' bf1 where a: "bf_add h bf p = Inr (r', bf1)"
        and wf: "bf_wf bf1" and e: "size_bf bf1 = size_bf bf" "num_hashes bf1 = num_hashes bf"
        by blast
      from Cons.IH[OF wf] obtain res bf' where
        l: "check_loop h bf1 (results(key_of p \<mapsto> Unique)) ps = Inr (res, bf')"
        and w: "bf_wf bf'" "size_bf bf' = size_bf bf1" "num_hashes bf' = num_hashes bf1"
        by blast
      have "check_loop h bf results (p # ps) = Inr (res, bf')"
        using False c nr a l by simp
      then show ?thesis using w e by simp
    qed
  qed
qed

lemma check_loop_mono:
  "check_loop h bf results ps = Inr (res, bf') \<Longrightarrow> get_bit_bf bf j = Inr 1
     \<Longrightarrow> get_bit_bf bf' j = Inr 1"
proof (induction ps arbitrary: bf results)
  case Nil
  then show ?case by simp
next
  case (Cons p ps)
  show ?case
  proof (cases "is_invalid p")
    case True
    then show ?thesis using Cons by simp
  next
    case False
    show ?thesis
    proof (cases "bf_contains h bf p")
      case (Inl e)
      then show ?thesis using False Cons.prems by simp
    next
      case (Inr r)
      show ?thesis
      proof (cases r)
        case True
        then show ?thesis using False Inr Cons by simp
      next
        case nr: False
        from Cons.prems(1) False Inr nr obtain r' bf1 where a: "bf_add h bf p = Inr (r', bf1)"
          and l: "check_loop h bf1 (results(key_of p \<mapsto> Unique)) ps = Inr (res, bf')"
          by (auto split: sum.splits prod.splits)
        from bf_add_mono[OF a Cons.prems(2)] Cons.IH[OF l] show ?thesis by simp
      qed
    qed
  qed
qed

lemma run_calls_mono:
  "run_calls h bf calls = Inr bf' \<Longrightarrow> get_bit_bf bf j = Inr 1 \<Longrightarrow> get_bit_bf bf' j = Inr 1"
proof (induction h bf calls rule: run_calls.induct)
  case (1 h bf)
  then show ?case by simp
next
  case (2 h bf x cs)
  from "2.prems"(1) obtain r bf1 where a: "bf_add h bf x = Inr (r, bf1)"
    and l: "run_calls h bf1 cs = Inr bf'"
    by (auto split: sum.splits prod.splits)
  from bf_add_mono[OF a "2.prems"(2)] have "get_bit_bf bf1 j = Inr 1" .
  with "2.IH"[of "(r, bf1)" r bf1] a l show ?case by simp
next
  case (3 h bf x cs)
  from "3.prems"(1) obtain r where a: "bf_contains h bf x = Inr r"
    and l: "run_calls h bf cs = Inr bf'"
    by (auto split: sum.splits)
  with "3.IH"[of r] "3.prems"(2) show ?case by simp
next
  case (4 h bf ps cs)
  from "4.prems"(1) obtain res bf1 where a: "check_password_uniqueness h bf ps = Inr (res, bf1)"
    and l: "run_calls h bf1 cs = Inr bf'"
    by (auto split: sum.splits prod.splits)
  from a check_loop_mono "4.prems"(2) have "get_bit_bf bf1 j = Inr 1"
    by (simp add: check_password_uniqueness_def)
  with "4.IH"[of "(res, bf1)" res bf1] a l show ?case by simp
qed

lemma run_calls_ok:
  assumes "bf_wf bf"
  shows "\<exists>bf'. run_calls h bf calls = Inr bf' \<and> bf_wf bf'"
  using assms
proof (induction h bf calls rule: run_calls.induct)
  case (1 h bf)
  then show ?case by simp
next
  case (2 h bf x cs)
  from bf_add_ok[OF "2.prems", of h x] obtain r bf1 where a: "bf_add h bf x = Inr (r, bf1)"
    and wf: "bf_wf bf1" by blast
  with "2.IH"[of "(r, bf1)" r bf1] show ?case by simp
next
  case (3 h bf x cs)
  from bf_contains_ok[OF "3.prems", of h x] obtain r where a: "bf_contains h bf x = Inr r"
    by blast
  with "3.IH"[of r] "3.prems" show ?case by simp
next
  case (4 h bf ps cs)
  from check_loop_ok[OF "4.prems", of h Map.empty ps] obtain res bf1 where
    a: "check_password_uniqueness h bf ps = Inr (res, bf1)" and wf: "bf_wf bf1"
    by (auto simp: check_password_uniqueness_def)
  with "4.IH"[of "(res, bf1)" res bf1] show ?case by simp
qed

lemma ceil_div8: "\<lceil>real_of_int sz / 8\<rceil> = (sz + 7) div 8"
proof -
  have "\<lceil>real_of_int sz / real_of_int 8\<rceil> = - (- sz div 8)"
    by (rule ceiling_divide_eq_div)
  also have "\<dots> = (sz + 7) div 8" by presburger
  finally show ?thesis by simp
qed





subsection \<open>No false negatives\<close>

text \<open>
  Claim C1. Take a filter built by the constructor, after any earlier \<open>add\<close> calls. Once
  \<open>add(item)\<close> has returned \<open>True\<close>, any further sequence of \<open>add\<close> calls with arbitrary
  items runs to its end without raising, and \<open>contains(item)\<close> then returns \<open>True\<close>; the
  empty sequence gives \<open>contains(item)\<close> right after the \<open>add\<close>.
\<close>

theorem no_false_negatives:
  assumes "BloomFilter_init sz k = Inr bf0"
    and "add_all h bf0 earlier = Inr bf1"
    and "bf_add h bf1 item = Inr (True, bf2)"
  shows "\<exists>bf3. add_all h bf2 later = Inr bf3 \<and> bf_contains h bf3 item = Inr True"
proof -
  let ?s = "normalize_item item"
  have wf0: "bf_wf bf0" using init_wf[OF assms(1)] by simp
  from add_all_ok[OF wf0, of h earlier] assms(2) have wf1: "bf_wf bf1" by simp
  from bf_add_ok[OF wf1, of h item] assms(3)
  have wf2: "bf_wf bf2" and sz2: "size_bf bf2 = size_bf bf1" and k2: "num_hashes bf2 = num_hashes bf1"
    and nb: "strip ?s \<noteq> ''''"
    and g: "\<forall>i\<in>set (py_range (num_hashes bf1)). get_bit_bf bf2 (uint (h ?s i) mod size_bf bf1) = Inr 1"
    by simp_all
  from add_all_ok[OF wf2, of h later] obtain bf3 where a3: "add_all h bf2 later = Inr bf3"
    and wf3: "bf_wf bf3" and sz3: "size_bf bf3 = size_bf bf2" and k3: "num_hashes bf3 = num_hashes bf2"
    by blast
  have "\<forall>i\<in>set (py_range (num_hashes bf3)). get_bit_bf bf3 (uint (h ?s i) mod size_bf bf3) = Inr 1"
    using g add_all_mono[OF a3] sz2 sz3 k2 k3 by simp
  moreover have "size_bf bf3 \<noteq> 0" using wf3 by (simp add: bf_wf_def)
  ultimately have "contains_loop h bf3 ?s (py_range (num_hashes bf3)) = Inr True"
    by (intro contains_loop_true)
  then have "bf_contains h bf3 item = Inr True" using nb by (simp add: bf_contains_def)
  then show ?thesis using a3 by simp
qed

theorem no_false_negatives_witness:
  "BloomFilter_init 16 2 = Inr \<lparr>size_bf = 16, num_hashes = 2, bits = [0, 0]\<rparr>
   \<and> add_all sample_hash \<lparr>size_bf = 16, num_hashes = 2, bits = [0, 0]\<rparr> [PyStr ''abc'']
       = Inr \<lparr>size_bf = 16, num_hashes = 2, bits = [24, 0]\<rparr>
   \<and> bf_add sample_hash \<lparr>size_bf = 16, num_hashes = 2, bits = [24, 0]\<rparr> (PyStr ''hello'')
       = Inr (True, \<lparr>size_bf = 16, num_hashes = 2, bits = [120, 0]\<rparr>)
   \<and> (\<exists>bf3. add_all sample_hash \<lparr>size_bf = 16, num_hashes = 2, bits = [120, 0]\<rparr>
                [PyStr ''secret'', PyNone] = Inr bf3
            \<and> bf_contains sample_hash bf3 (PyStr ''hello'') = Inr True)"
proof -
  have h1: "BloomFilter_init 16 2 = Inr \<lparr>size_bf = 16, num_hashes = 2, bits = [0, 0]\<rparr>"
    by code_simp
  have h2: "add_all sample_hash \<lparr>size_bf = 16, num_hashes = 2, bits = [0, 0]\<rparr> [PyStr ''abc'']
       = Inr \<lparr>size_bf = 16, num_hashes = 2, bits = [24, 0]\<rparr>"
    by code_simp
  have h3: "bf_add sample_hash \<lparr>size_bf = 16, num_hashes = 2, bits = [24, 0]\<rparr> (PyStr ''hello'')
       = Inr (True, \<lparr>size_bf = 16, num_hashes = 2, bits = [120, 0]\<rparr>)"
    by code_simp
  show ?thesis
    using h1 h2 h3 no_false_negatives [OF h1 h2 h3, of "[PyStr ''secret'', PyNone]"] by blast
qed

subsection \<open>Invalid input\<close>

text \<open>
  Claim C2. If the normalized string form of the input is empty or consists of whitespace
  only, then on any filter \<open>add\<close> returns \<open>False\<close> and hands back the filter exactly as
  it was (the same size, the same number of hashes, the same bytes), and \<open>contains\<close>
  returns \<open>False\<close>. Both results are ordinary returns (\<open>Inr\<close>): nothing is raised. The
  witness covers \<open>None\<close>, the empty string and a string of three spaces.
\<close>

theorem invalid_input_rejected:
  assumes "\<forall>c\<in>set (normalize_item item). py_isspace c"
  shows "bf_add h bf item = Inr (False, bf) \<and> bf_contains h bf item = Inr False"
  using assms by (simp add: bf_add_def bf_contains_def strip_empty_iff)

theorem invalid_input_rejected_witness:
  "list_all py_isspace (normalize_item (PyStr ''   ''))
   \<and> bf_add sample_hash \<lparr>size_bf = 16, num_hashes = 2, bits = [24, 0]\<rparr> (PyStr ''   '')
       = Inr (False, \<lparr>size_bf = 16, num_hashes = 2, bits = [24, 0]\<rparr>)
   \<and> bf_contains sample_hash \<lparr>size_bf = 16, num_hashes = 2, bits = [24, 0]\<rparr> (PyStr ''   '')
       = Inr False
   \<and> bf_add sample_hash \<lparr>size_bf = 16, num_hashes = 2, bits = [24, 0]\<rparr> PyNone
       = Inr (False, \<lparr>size_bf = 16, num_hashes = 2, bits = [24, 0]\<rparr>)
   \<and> bf_add sample_hash \<lparr>size_bf = 16, num_hashes = 2, bits = [24, 0]\<rparr> (PyStr '''')
       = Inr (False, \<lparr>size_bf = 16, num_hashes = 2, bits = [24, 0]\<rparr>)"
proof -
  have a: "\<forall>c\<in>set (normalize_item (PyStr ''   '')). py_isspace c"
    by (simp add: py_isspace_def)
  have b: "\<forall>c\<in>set (normalize_item PyNone). py_isspace c" by simp
  have c: "\<forall>c\<in>set (normalize_item (PyStr '''')). py_isspace c" by simp
  have d: "list_all py_isspace (normalize_item (PyStr ''   ''))"
    using a by (simp only: list_all_iff)
  show ?thesis
    using d invalid_input_rejected [OF a] invalid_input_rejected [OF b]
      invalid_input_rejected [OF c] by blast
qed

subsection \<open>Bits are never cleared\<close>

text \<open>
  Claim C7. On a filter built by the constructor, any sequence of \<open>add\<close>, \<open>contains\<close> and
  batch-check calls runs without raising, and so does any sequence that follows it; every
  bit position that reads 1 after the first sequence still reads 1 after the second. The
  set of set-bit positions therefore never shrinks during the lifetime of a filter.
\<close>

theorem bits_never_cleared:
  assumes "BloomFilter_init sz k = Inr bf0"
  shows "\<exists>bf1 bf2. run_calls h bf0 calls = Inr bf1 \<and> run_calls h bf1 more_calls = Inr bf2
           \<and> {j. get_bit_bf bf1 j = Inr 1} \<subseteq> {j. get_bit_bf bf2 j = Inr 1}"
proof -
  have "bf_wf bf0" using init_wf[OF assms] by simp
  from run_calls_ok[OF this, of h calls] obtain bf1 where
    r1: "run_calls h bf0 calls = Inr bf1" and wf1: "bf_wf bf1" by blast
  from run_calls_ok[OF wf1, of h more_calls] obtain bf2 where
    r2: "run_calls h bf1 more_calls = Inr bf2" by blast
  have "{j. get_bit_bf bf1 j = Inr 1} \<subseteq> {j. get_bit_bf bf2 j = Inr 1}"
    using run_calls_mono[OF r2] by blast
  with r1 r2 show ?thesis by blast
qed

theorem bits_never_cleared_witness:
  "BloomFilter_init 16 2 = Inr \<lparr>size_bf = 16, num_hashes = 2, bits = [0, 0]\<rparr>
   \<and> (\<exists>bf1 bf2.
         run_calls sample_hash \<lparr>size_bf = 16, num_hashes = 2, bits = [0, 0]\<rparr>
           [Add (PyStr ''abc''), Contains (PyStr ''abc'')] = Inr bf1
       \<and> run_calls sample_hash bf1
           [Check [PyStr ''hello'', PyNone], Contains (PyStr ''x''), Add (PyObj ''42'')] = Inr bf2
       \<and> {j. get_bit_bf bf1 j = Inr 1} \<subseteq> {j. get_bit_bf bf2 j = Inr 1})"
proof -
  have h1: "BloomFilter_init 16 2 = Inr \<lparr>size_bf = 16, num_hashes = 2, bits = [0, 0]\<rparr>"
    by code_simp
  show ?thesis
    using h1 bits_never_cleared [OF h1, of sample_hash
        "[Add (PyStr ''abc''), Contains (PyStr ''abc'')]"
        "[Check [PyStr ''hello'', PyNone], Contains (PyStr ''x''), Add (PyObj ''42'')]"]
    by blast
qed

subsection \<open>Index safety\<close>

text \<open>
  Claim C9. Take a filter built by the constructor with size \<open>sz\<close>, after any sequence of
  \<open>add\<close> calls (which does not raise). Its bytearray has \<open>ceil(sz / 8)\<close> bytes. For every
  string and every seed, the bit index computed in \<open>add\<close> and \<open>contains\<close> satisfies
  \<open>0 \<le> idx < sz\<close>, its byte index \<open>idx >> 3\<close> lies within the bytearray, and \<open>_set_bit\<close>
  and \<open>_get_bit\<close> at that index return normally. Hence \<open>add\<close> and \<open>contains\<close> never raise
  on such a filter, whatever the item.
\<close>

theorem bit_index_in_bounds:
  assumes "BloomFilter_init sz k = Inr bf0"
  shows "\<exists>bf. add_all h bf0 items = Inr bf
           \<and> size_bf bf = sz \<and> int (length (bits bf)) = \<lceil>real_of_int sz / 8\<rceil>
           \<and> (\<exists>idx. bit_index h bf s i = Inr idx \<and> 0 \<le> idx \<and> idx < sz
                 \<and> 0 \<le> drop_bit 3 idx \<and> drop_bit 3 idx < int (length (bits bf))
                 \<and> (\<exists>bf'. set_bit_bf bf idx = Inr bf') \<and> (\<exists>b. get_bit_bf bf idx = Inr b))
           \<and> (\<exists>r bf'. bf_add h bf item = Inr (r, bf'))
           \<and> (\<exists>r. bf_contains h bf item = Inr r)"
proof -
  have wf0: "bf_wf bf0" and sz0: "size_bf bf0 = sz" using init_wf[OF assms] by simp_all
  from add_all_ok[OF wf0, of h items] obtain bf where a: "add_all h bf0 items = Inr bf"
    and wf: "bf_wf bf" and sz: "size_bf bf = sz" using sz0 by auto
  let ?idx = "uint (h s i) mod size_bf bf"
  have pos: "0 < size_bf bf" and len: "int (length (bits bf)) = (size_bf bf + 7) div 8"
    using wf by (simp_all add: bf_wf_def)
  have bi: "bit_index h bf s i = Inr ?idx" using pos by (simp add: bit_index_def)
  have r: "0 \<le> ?idx" "?idx < size_bf bf" using pos by simp_all
  have b: "0 \<le> drop_bit 3 ?idx \<and> drop_bit 3 ?idx < int (length (bits bf))"
    using byte_index_bound[OF r] len by simp
  from set_bit_ok[OF wf r] have s: "\<exists>bf'. set_bit_bf bf ?idx = Inr bf'" by blast
  have g: "\<exists>b. get_bit_bf bf ?idx = Inr b" by (rule get_bit_ok[OF wf r])
  have ad: "\<exists>r bf'. bf_add h bf item = Inr (r, bf')" using bf_add_ok[OF wf, of h item] by blast
  have co: "\<exists>r. bf_contains h bf item = Inr r" by (rule bf_contains_ok[OF wf])
  have l: "int (length (bits bf)) = \<lceil>real_of_int sz / 8\<rceil>" using len sz by (simp add: ceil_div8)
  have ix: "\<exists>idx. bit_index h bf s i = Inr idx \<and> 0 \<le> idx \<and> idx < sz
                 \<and> 0 \<le> drop_bit 3 idx \<and> drop_bit 3 idx < int (length (bits bf))
                 \<and> (\<exists>bf'. set_bit_bf bf idx = Inr bf') \<and> (\<exists>b. get_bit_bf bf idx = Inr b)"
    using bi r b s g sz by (intro exI[of _ ?idx]) simp
  show ?thesis using a sz l ix ad co by blast
qed

theorem bit_index_in_bounds_witness:
  "BloomFilter_init 10 3 = Inr \<lparr>size_bf = 10, num_hashes = 3, bits = [0, 0]\<rparr>
   \<and> (\<exists>bf. add_all sample_hash \<lparr>size_bf = 10, num_hashes = 3, bits = [0, 0]\<rparr>
              [PyStr ''abc'', PyNone] = Inr bf
          \<and> size_bf bf = 10 \<and> int (length (bits bf)) = \<lceil>real_of_int 10 / 8\<rceil>
          \<and> (\<exists>idx. bit_index sample_hash bf ''hello'' 2 = Inr idx \<and> 0 \<le> idx \<and> idx < 10
                \<and> 0 \<le> drop_bit 3 idx \<and> drop_bit 3 idx < int (length (bits bf))
                \<and> (\<exists>bf'. set_bit_bf bf idx = Inr bf') \<and> (\<exists>b. get_bit_bf bf idx = Inr b))
          \<and> (\<exists>r bf'. bf_add sample_hash bf (PyStr ''hello'') = Inr (r, bf'))
          \<and> (\<exists>r. bf_contains sample_hash bf (PyStr ''hello'') = Inr r))"
proof -
  have h1: "BloomFilter_init 10 3 = Inr \<lparr>size_bf = 10, num_hashes = 3, bits = [0, 0]\<rparr>"
    by code_simp
  show ?thesis
    using h1 bit_index_in_bounds [OF h1, of sample_hash "[PyStr ''abc'', PyNone]"
        "''hello''" 2 "PyStr ''hello''"]
    by blast
qed

subsection \<open>Keys of the result dictionary\<close>




subsection \<open>The batch check on items that are None, strings, or print as non-blank\<close>

text \<open>
  For \<open>None\<close> and for strings the test of \<open>check_password_uniqueness\<close> agrees with the
  filter's own notion of an invalid item. An item whose normalized form is not blank is in
  the filter once it has been processed, and stays there, so a second occurrence later in
  the same batch is labelled as already used.
\<close>

lemma is_invalid_iff_blank:
  "(\<forall>s. p \<noteq> PyObj s) \<Longrightarrow> is_invalid p = (strip (normalize_item p) = '''')"
  by (cases p) (simp_all add: strip_def)

lemma not_blank_not_invalid: "strip (normalize_item p) \<noteq> '''' \<Longrightarrow> \<not> is_invalid p"
  by (cases p) (simp_all add: strip_def)

lemma get_bit_values: "get_bit_bf bf idx = Inr b \<Longrightarrow> b = 0 \<or> b = 1"
  by (auto simp: get_bit_alt split: sum.splits if_splits)

lemma contains_loop_probes:
  "contains_loop h bf s seeds = Inr True \<Longrightarrow> i \<in> set seeds
     \<Longrightarrow> get_bit_bf bf (uint (h s i) mod size_bf bf) = Inr 1"
proof (induction seeds)
  case Nil
  then show ?case by simp
next
  case (Cons a seeds)
  from Cons.prems(1) obtain b where bi: "bit_index h bf s a = Inr (uint (h s a) mod size_bf bf)"
    and g: "get_bit_bf bf (uint (h s a) mod size_bf bf) = Inr b"
    by (auto simp: bit_index_def split: sum.splits if_splits)
  have nz: "b \<noteq> 0" using Cons.prems(1) bi g by (auto split: if_splits)
  then have b1: "b = 1" using get_bit_values[OF g] by simp
  have rest: "contains_loop h bf s seeds = Inr True" using Cons.prems(1) bi g nz by simp
  show ?case
  proof (cases "i = a")
    case True
    then show ?thesis using g b1 by simp
  next
    case False
    then have "i \<in> set seeds" using Cons.prems(2) by simp
    then show ?thesis using Cons.IH[OF rest] by simp
  qed
qed

lemma bf_contains_kept:
  assumes "bf_contains h bf item = Inr True" and "bf_wf bf'"
    and "size_bf bf' = size_bf bf" and "num_hashes bf' = num_hashes bf"
    and "\<And>j. get_bit_bf bf j = Inr 1 \<Longrightarrow> get_bit_bf bf' j = Inr 1"
  shows "bf_contains h bf' item = Inr True"
proof -
  let ?s = "normalize_item item"
  have nb: "strip ?s \<noteq> ''''" using assms(1) by (auto simp: bf_contains_def split: if_splits)
  then have c: "contains_loop h bf ?s (py_range (num_hashes bf)) = Inr True"
    using assms(1) by (simp add: bf_contains_def)
  have "\<forall>i\<in>set (py_range (num_hashes bf')).
          get_bit_bf bf' (uint (h ?s i) mod size_bf bf') = Inr 1"
    using contains_loop_probes[OF c] assms(3,4,5) by simp
  moreover have "size_bf bf' \<noteq> 0" using assms(2) by (simp add: bf_wf_def)
  ultimately have "contains_loop h bf' ?s (py_range (num_hashes bf')) = Inr True"
    by (intro contains_loop_true)
  then show ?thesis using nb by (simp add: bf_contains_def)
qed

lemma check_loop_append:
  "check_loop h b r (xs @ ys) =
     (case check_loop h b r xs of
        Inl e \<Rightarrow> Inl e
      | Inr (r', b') \<Rightarrow> check_loop h b' r' ys)"
  by (induction xs arbitrary: b r) (auto simp: Let_def split: sum.splits bool.splits prod.splits)

lemma check_loop_contains_kept:
  assumes "bf_wf b" and "check_loop h b r ys = Inr (r', b')"
    and "bf_contains h b p = Inr True"
  shows "bf_contains h b' p = Inr True \<and> bf_wf b'"
proof -
  from check_loop_ok[OF assms(1), of h r ys] assms(2)
  have wf: "bf_wf b'" and sz: "size_bf b' = size_bf b" and k: "num_hashes b' = num_hashes b"
    by simp_all
  have "bf_contains h b' p = Inr True"
    using assms(3) wf sz k check_loop_mono[OF assms(2)] by (rule bf_contains_kept)
  then show ?thesis using wf by simp
qed

lemma check_item_contained:
  assumes "bf_wf b" and "strip (normalize_item p) \<noteq> ''''"
    and "check_loop h b r [p] = Inr (r', b')"
  shows "bf_contains h b' p = Inr True \<and> bf_wf b'"
proof -
  have ni: "\<not> is_invalid p" using assms(2) by (rule not_blank_not_invalid)
  from bf_contains_ok[OF assms(1), of h p] obtain c where c: "bf_contains h b p = Inr c"
    by blast
  show ?thesis
  proof (cases c)
    case True
    then have "b' = b" using assms(3) ni c by simp
    then show ?thesis using True c assms(1) by simp
  next
    case False
    from bf_add_ok[OF assms(1), of h p] assms(2) obtain b1 where
      a: "bf_add h b p = Inr (True, b1)" and wf: "bf_wf b1"
      and sz: "size_bf b1 = size_bf b" and k: "num_hashes b1 = num_hashes b"
      and g: "\<forall>i\<in>set (py_range (num_hashes b)).
                get_bit_bf b1 (uint (h (normalize_item p) i) mod size_bf b) = Inr 1"
      by auto
    have e: "b' = b1" using assms(3) ni c False a by simp
    have "size_bf b1 \<noteq> 0" using wf by (simp add: bf_wf_def)
    moreover have "\<forall>i\<in>set (py_range (num_hashes b1)).
                get_bit_bf b1 (uint (h (normalize_item p) i) mod size_bf b1) = Inr 1"
      using g sz k by simp
    ultimately have "contains_loop h b1 (normalize_item p) (py_range (num_hashes b1)) = Inr True"
      by (intro contains_loop_true)
    then have "bf_contains h b1 p = Inr True" using assms(2) by (simp add: bf_contains_def)
    then show ?thesis using e wf by simp
  qed
qed

lemma batch_duplicate_detected:
  assumes "BloomFilter_init sz k = Inr bf0" and "add_all h bf0 earlier = Inr bloom"
    and "strip (normalize_item p) \<noteq> ''''"
  shows "\<exists>res bloom'. check_password_uniqueness h bloom (xs @ [p] @ ys @ [p]) = Inr (res, bloom')
           \<and> res (key_of p) = Some AlreadyUsed"
proof -
  have "bf_wf bf0" using init_wf[OF assms(1)] by simp
  from add_all_ok[OF this, of h earlier] assms(2) have wf: "bf_wf bloom" by simp
  from check_loop_ok[OF wf, of h Map.empty xs] obtain r1 b1 where
    l1: "check_loop h bloom Map.empty xs = Inr (r1, b1)" and wf1: "bf_wf b1" by blast
  from check_loop_ok[OF wf1, of h r1 "[p]"] obtain r2 b2 where
    l2: "check_loop h b1 r1 [p] = Inr (r2, b2)" by blast
  from check_item_contained[OF wf1 assms(3) l2]
  have c2: "bf_contains h b2 p = Inr True" and wf2: "bf_wf b2" by simp_all
  from check_loop_ok[OF wf2, of h r2 ys] obtain r3 b3 where
    l3: "check_loop h b2 r2 ys = Inr (r3, b3)" by blast
  from check_loop_contains_kept[OF wf2 l3 c2]
  have c3: "bf_contains h b3 p = Inr True" by simp
  have ni: "\<not> is_invalid p" using assms(3) by (rule not_blank_not_invalid)
  have l4: "check_loop h b3 r3 [p] = Inr (r3(key_of p \<mapsto> AlreadyUsed), b3)"
    using ni c3 by simp
  have "check_loop h bloom Map.empty (xs @ [p] @ ys @ [p])
          = Inr (r3(key_of p \<mapsto> AlreadyUsed), b3)"
    using l1 l2 l3 l4 by (simp only: check_loop_append sum.case prod.case)
  then show ?thesis by (simp add: check_password_uniqueness_def)
qed

subsection \<open>The batch check on an object whose string form is blank\<close>

text \<open>
  Claim C3. The claim classifies as invalid every item that normalizes to an empty or
  whitespace-only string, and adds every item classified unique to the filter.
  \<open>check_password_uniqueness\<close> tests \<open>p is None or (isinstance(p, str) and
  p.strip() == "")\<close>, which misses an object that is not a \<open>str\<close> and whose string form is
  blank. The theorem runs the batch check on two such objects (string form: two spaces).
  Their normalized form is whitespace-only, yet each is labelled unique, and the filter is
  left as it was: \<open>add\<close> rejected the item, so the second occurrence is not reported as
  already used.
\<close>

theorem blank_object_labelled_unique:
  "strip (normalize_item (PyObj ''  '')) = ''''
   \<and> BloomFilter_init 16 2 = Inr \<lparr>size_bf = 16, num_hashes = 2, bits = [0, 0]\<rparr>
   \<and> check_password_uniqueness sample_hash \<lparr>size_bf = 16, num_hashes = 2, bits = [0, 0]\<rparr>
        [PyObj ''  '', PyObj ''  '']
     = Inr (Map.empty(''  '' \<mapsto> Unique), \<lparr>size_bf = 16, num_hashes = 2, bits = [0, 0]\<rparr>)"
proof -
  have "BloomFilter_init 16 2 = Inr \<lparr>size_bf = 16, num_hashes = 2, bits = [0, 0]\<rparr>"
    by code_simp
  then show ?thesis
    by (simp add: check_password_uniqueness_def bf_contains_def bf_add_def strip_def
        py_isspace_def)
qed

section \<open>Properties of HyperLogLog\<close>

subsection \<open>Auxiliary facts\<close>

lemma bit_length_nat_0: "bit_length_nat 0 = 0"
  by (simp add: bit_length_nat.simps)

lemma bit_length_nat_double: "0 < n \<Longrightarrow> bit_length_nat (2 * n) = Suc (bit_length_nat n)"
  by (subst bit_length_nat.simps) simp

lemma bit_length_nat_shift: "0 < n \<Longrightarrow> bit_length_nat (n * 2 ^ k) = bit_length_nat n + k"
proof (induction k)
  case 0
  then show ?case by simp
next
  case (Suc k)
  have p: "0 < n * 2 ^ k" using Suc.prems by simp
  have "bit_length_nat (n * 2 ^ Suc k) = bit_length_nat (2 * (n * 2 ^ k))"
    by (simp add: mult.left_commute)
  also have "\<dots> = Suc (bit_length_nat (n * 2 ^ k))" using p by (rule bit_length_nat_double)
  finally show ?case using Suc by simp
qed

lemma bit_length_nat_upper: "n < 2 ^ bit_length_nat n"
proof (induction n rule: bit_length_nat.induct)
  case (1 n)
  show ?case
  proof (cases "n = 0")
    case True
    then show ?thesis by (simp add: bit_length_nat_0)
  next
    case False
    then have "n div 2 < 2 ^ bit_length_nat (n div 2)" using 1 by simp
    moreover have "bit_length_nat n = Suc (bit_length_nat (n div 2))"
      using False by (subst bit_length_nat.simps) simp
    ultimately show ?thesis by simp
  qed
qed

lemma bit_length_nat_lower: "0 < n \<Longrightarrow> 2 ^ (bit_length_nat n - 1) \<le> n"
proof (induction n rule: bit_length_nat.induct)
  case (1 n)
  then have n0: "n \<noteq> 0" by simp
  have e: "bit_length_nat n = Suc (bit_length_nat (n div 2))"
    using n0 by (subst bit_length_nat.simps) simp
  show ?case
  proof (cases "n div 2 = 0")
    case True
    then show ?thesis using e n0 by (simp add: bit_length_nat_0)
  next
    case False
    then have "2 ^ (bit_length_nat (n div 2) - 1) \<le> n div 2" using 1 n0 by simp
    moreover have "0 < bit_length_nat (n div 2)"
      using False by (subst bit_length_nat.simps) simp
    ultimately have "2 ^ bit_length_nat (n div 2) \<le> 2 * (n div 2)"
      by (cases "bit_length_nat (n div 2)") simp_all
    then show ?thesis using e by simp
  qed
qed

lemma bit_length_nat_pos: "0 < n \<Longrightarrow> 0 < bit_length_nat n"
  by (subst bit_length_nat.simps) simp

lemma bit_length_nat_le: "n < 2 ^ w \<Longrightarrow> bit_length_nat n \<le> w"
proof (rule ccontr)
  assume a: "n < 2 ^ w" and "\<not> bit_length_nat n \<le> w"
  then have w: "w \<le> bit_length_nat n - 1" and p: "0 < bit_length_nat n" by simp_all
  then have "0 < n" by (cases "n = 0") (simp_all add: bit_length_nat_0)
  then have "2 ^ (bit_length_nat n - 1) \<le> n" by (rule bit_length_nat_lower)
  moreover have "(2::nat) ^ w \<le> 2 ^ (bit_length_nat n - 1)" using w by simp
  ultimately show False using a by linarith
qed

lemma not_bit_above:
  assumes "0 \<le> (v::int)" "v < 2 ^ k" "k \<le> i"
  shows "\<not> bit v i"
proof -
  have "(2::int) ^ k \<le> 2 ^ i" using assms(3) by simp
  then have "v < 2 ^ i" using assms(2) by linarith
  then have "v div 2 ^ i = 0" using assms(1) by simp
  then show ?thesis by (simp add: bit_iff_odd)
qed

lemma bit_top:
  assumes "0 < n"
  shows "bit (int n) (bit_length_nat n - 1)"
proof -
  let ?k = "bit_length_nat n - 1"
  have l: "2 ^ ?k \<le> n" using assms by (rule bit_length_nat_lower)
  have "n < 2 ^ bit_length_nat n" by (rule bit_length_nat_upper)
  moreover have "bit_length_nat n = Suc ?k" using bit_length_nat_pos[OF assms] by simp
  ultimately have u: "n < 2 * 2 ^ ?k" by (metis power_Suc)
  have "n div 2 ^ ?k = 1"
  proof -
    have "n div 2 ^ ?k < 2" using u by (simp add: less_mult_imp_div_less mult.commute)
    moreover have "1 \<le> n div 2 ^ ?k" using l by (simp add: div_greater_zero_iff Suc_le_eq)
    ultimately show ?thesis by simp
  qed
  then have "odd (n div 2 ^ ?k)" by simp
  then have "bit n ?k" by (simp add: bit_iff_odd)
  then show ?thesis by (simp add: bit_of_nat_iff_bit)
qed

lemma leading_zero_bits_eq:
  assumes "0 \<le> v" "v < 2 ^ w"
  shows "int (leading_zero_bits w v) = int w - bit_length v"
proof -
  let ?n = "nat v"
  let ?b = "bit_length_nat ?n"
  have vn: "v = int ?n" using assms(1) by simp
  have "?n < 2 ^ w" using assms by (simp add: nat_less_iff)
  then have bw: "?b \<le> w" by (rule bit_length_nat_le)
  have "[0..<?b + (w - ?b)] = [0..<?b] @ [?b..<?b + (w - ?b)]"
    by (rule upt_add_eq_append) simp
  then have "[0..<w] = [0..<?b] @ [?b..<w]" using bw by simp
  then have split: "rev [0..<w] = rev [?b..<w] @ rev [0..<?b]" by (simp only: rev_append)
  have high: "\<forall>i\<in>set (rev [?b..<w]). \<not> bit v i"
  proof
    fix i assume "i \<in> set (rev [?b..<w])"
    then have "?b \<le> i" by simp
    moreover have "v < 2 ^ ?b" using bit_length_nat_upper[of ?n] assms(1)
      by (metis vn of_nat_less_numeral_power_cancel_iff)
    ultimately show "\<not> bit v i" using not_bit_above assms(1) by blast
  qed
  have tw: "takeWhile (\<lambda>i. \<not> bit v i) (rev [0..<w]) = rev [?b..<w]"
  proof (cases "?n = 0")
    case True
    then have "?b = 0" by (simp add: bit_length_nat_0)
    then show ?thesis using high by (simp add: takeWhile_eq_all_conv)
  next
    case False
    then have pos: "0 < ?n" by simp
    then have "0 < ?b" by (rule bit_length_nat_pos)
    then have "[0..<?b] = [0..<?b - 1] @ [?b - 1]"
      by (metis Suc_diff_1 upt_Suc_append le0)
    then have r: "rev [0..<?b] = (?b - 1) # rev [0..<?b - 1]" by simp
    have top: "bit v (?b - 1)" using bit_top[OF pos] vn by simp
    have "takeWhile (\<lambda>i. \<not> bit v i) (rev [?b..<w] @ (?b - 1) # rev [0..<?b - 1])
            = rev [?b..<w] @ takeWhile (\<lambda>i. \<not> bit v i) ((?b - 1) # rev [0..<?b - 1])"
      using high by (intro takeWhile_append2) blast
    also have "\<dots> = rev [?b..<w]" using top by simp
    finally show ?thesis unfolding split r .
  qed
  have "leading_zero_bits w v = w - ?b" by (simp add: leading_zero_bits_def tw)
  then show ?thesis using bw assms(1) by (simp add: bit_length_def)
qed

lemma code_suffix:
  "push_bit p (x::int) AND (push_bit 64 1 - 1) = push_bit p (take_bit (64 - p) x)"
proof -
  have "push_bit 64 (1::int) - 1 = mask 64" by (simp add: mask_eq_exp_minus_1)
  then have "push_bit p x AND (push_bit 64 1 - 1) = take_bit 64 (push_bit p x)"
    by (simp add: take_bit_eq_mask)
  then show ?thesis by (simp add: take_bit_push_bit)
qed

lemma bit_length_shift:
  assumes "0 < (s::int)"
  shows "bit_length (push_bit p s) = bit_length s + int p"
proof -
  have "nat \<bar>push_bit p s\<bar> = nat s * 2 ^ p"
    using assms by (simp add: push_bit_eq_mult nat_mult_distrib nat_power_eq abs_mult)
  moreover have "0 < nat s" using assms by simp
  ultimately show ?thesis using assms by (simp add: bit_length_def bit_length_nat_shift)
qed

lemma rho_code_eq:
  assumes "p \<le> 64"
  shows "(let w = push_bit p (x::int) AND (push_bit 64 1 - 1)
          in if w = 0 then 64 - int p + 1 else clz64 w + 1) = rho_spec p x"
proof -
  let ?s = "take_bit (64 - p) x"
  have s0: "0 \<le> ?s" by simp
  have s1: "?s < 2 ^ (64 - p)" by simp
  have lz: "int (leading_zero_bits (64 - p) ?s) = int (64 - p) - bit_length ?s"
    using s0 s1 by (rule leading_zero_bits_eq)
  have w: "push_bit p x AND (push_bit 64 1 - 1) = push_bit p ?s" by (rule code_suffix)
  show ?thesis
  proof (cases "?s = 0")
    case True
    then have "bit_length ?s = 0" by (simp add: bit_length_def bit_length_nat_0)
    then show ?thesis using True w lz assms
      by (simp add: rho_spec_def suffix_spec_def Let_def)
  next
    case False
    then have pos: "0 < ?s" using s0 by linarith
    then have nz: "push_bit p ?s \<noteq> 0" by (simp add: push_bit_eq_mult)
    have "bit_length (push_bit p ?s) = bit_length ?s + int p" using pos by (rule bit_length_shift)
    then show ?thesis using nz w lz assms
      by (simp add: rho_spec_def suffix_spec_def Let_def clz64_def)
  qed
qed

lemma rho_spec_bounds:
  assumes "p \<le> 64"
  shows "1 \<le> rho_spec p x \<and> rho_spec p x \<le> 64 - int p + 1"
proof -
  have "leading_zero_bits (64 - p) (suffix_spec p x) \<le> length (rev [0..<64 - p])"
    unfolding leading_zero_bits_def by (rule length_takeWhile_le)
  then show ?thesis using assms by (simp add: rho_spec_def)
qed

lemma bucket_bounds:
  assumes "0 \<le> (x::int)" "x < 2 ^ 64" "p \<le> 64"
  shows "0 \<le> bucket_spec p x \<and> bucket_spec p x < 2 ^ p"
proof -
  have "take_bit 64 x = x" using assms(1,2) by (simp add: take_bit_int_eq_self)
  then have "drop_bit (64 - p) x = drop_bit (64 - p) (take_bit 64 x)" by simp
  also have "\<dots> = take_bit (64 - (64 - p)) (drop_bit (64 - p) x)"
    by (rule drop_bit_take_bit)
  also have "64 - (64 - p) = p" using assms(3) by simp
  finally have e: "drop_bit (64 - p) x = take_bit p (drop_bit (64 - p) x)" .
  have "0 \<le> take_bit p (drop_bit (64 - p) x) \<and> take_bit p (drop_bit (64 - p) x) < 2 ^ p"
    by simp
  then show ?thesis unfolding bucket_spec_def using e by simp
qed

lemma hll_init_wf:
  assumes "HyperLogLog_init p = Inr hll"
  shows "hll_wf hll \<and> p_hll hll = p \<and> 4 \<le> p \<and> p \<le> 18
           \<and> registers hll = replicate (2 ^ nat p) 0 \<and> m_hll hll = 2 ^ nat p"
proof -
  have r: "4 \<le> p" "p \<le> 18" using assms by (auto simp: HyperLogLog_init_def split: if_splits)
  have m: "nat (push_bit (nat p) (1::int)) = 2 ^ nat p"
    by (simp add: push_bit_eq_mult nat_power_eq)
  have "map_sum id p_hll (HyperLogLog_init p) = Inr p"
    using r by (simp add: HyperLogLog_init_def Let_def)
  then have f1: "p_hll hll = p" using assms by simp
  have "map_sum id m_hll (HyperLogLog_init p) = Inr (2 ^ nat p)"
    using r by (simp add: HyperLogLog_init_def Let_def)
  then have f2: "m_hll hll = 2 ^ nat p" using assms by simp
  have "map_sum id registers (HyperLogLog_init p) = Inr (replicate (2 ^ nat p) 0)"
    using r m by (simp add: HyperLogLog_init_def Let_def)
  then have f3: "registers hll = replicate (2 ^ nat p) 0" using assms by simp
  have "hll_wf hll" using f1 f2 f3 r by (simp add: hll_wf_def list_all_iff)
  then show ?thesis using f1 f2 f3 r by simp
qed

lemma hll_add_char:
  assumes "hll_wf hll"
  shows "0 \<le> bucket_spec (nat (p_hll hll)) (uint (h item))
       \<and> bucket_spec (nat (p_hll hll)) (uint (h item)) < int (length (registers hll))
       \<and> hll_add h hll item =
           Inr (hll\<lparr>registers := (registers hll)
                  [nat (bucket_spec (nat (p_hll hll)) (uint (h item))) :=
                     max (registers hll ! nat (bucket_spec (nat (p_hll hll)) (uint (h item))))
                         (rho_spec (nat (p_hll hll)) (uint (h item)))]\<rparr>)"
proof -
  let ?p = "nat (p_hll hll)"
  let ?x = "uint (h item)"
  let ?j = "bucket_spec ?p ?x"
  let ?rho = "rho_spec ?p ?x"
  have pr: "4 \<le> p_hll hll" "p_hll hll \<le> 18" and len: "length (registers hll) = 2 ^ ?p"
    using assms by (simp_all add: hll_wf_def)
  have p64: "?p \<le> 64" using pr by simp
  have x0: "0 \<le> ?x" by simp
  have x1: "?x < 2 ^ 64" using uint_lt2p[of "h item"] by simp
  have jb: "0 \<le> ?j \<and> ?j < 2 ^ ?p" using x0 x1 p64 by (rule bucket_bounds)
  then have jl: "0 \<le> ?j" "?j < int (length (registers hll))" using len by simp_all
  then have ix: "py_index (registers hll) ?j = Inr (nat ?j)" by (rule py_index_ok)
  have n64: "nat (64 - p_hll hll) = 64 - ?p" using pr by simp
  have jc: "drop_bit (nat (64 - p_hll hll)) ?x = ?j" by (simp add: bucket_spec_def n64)
  have rc: "(let w = push_bit ?p ?x AND (push_bit 64 1 - 1)
             in if w = 0 then 64 - int ?p + 1 else clz64 w + 1) = ?rho"
    using p64 by (rule rho_code_eq)
  have ip: "int ?p = p_hll hll" using pr by simp
  have rb: "1 \<le> ?rho \<and> ?rho \<le> 64 - int ?p + 1" using p64 by (rule rho_spec_bounds)
  then have rr: "0 \<le> ?rho" "?rho < 256" using pr by simp_all
  have g: "\<not> (64 - p_hll hll < 0 \<or> p_hll hll < 0)" using pr by simp
  have step: "hll_add h hll item =
      (if ?rho > registers hll ! nat ?j
       then Inr (hll\<lparr>registers := (registers hll)[nat ?j := ?rho]\<rparr>)
       else Inr hll)"
    using g ix rr rc unfolding hll_add_def Let_def jc ip by simp
  have "hll_add h hll item =
      Inr (hll\<lparr>registers := (registers hll)[nat ?j := max (registers hll ! nat ?j) ?rho]\<rparr>)"
  proof (cases "?rho > registers hll ! nat ?j")
    case True
    then have "max (registers hll ! nat ?j) ?rho = ?rho" by simp
    then show ?thesis using True step by simp
  next
    case False
    then have "max (registers hll ! nat ?j) ?rho = registers hll ! nat ?j" by simp
    then show ?thesis using False step by simp
  qed
  then show ?thesis using jl by simp
qed

lemma hll_add_wf:
  assumes "hll_wf hll"
  shows "\<exists>hll'. hll_add h hll item = Inr hll' \<and> hll_wf hll' \<and> p_hll hll' = p_hll hll
           \<and> m_hll hll' = m_hll hll \<and> alpha hll' = alpha hll
           \<and> length (registers hll') = length (registers hll)"
proof -
  let ?p = "nat (p_hll hll)"
  let ?j = "nat (bucket_spec ?p (uint (h item)))"
  let ?rho = "rho_spec ?p (uint (h item))"
  let ?v = "max (registers hll ! ?j) ?rho"
  let ?hll' = "hll\<lparr>registers := (registers hll)[?j := ?v]\<rparr>"
  from hll_add_char[OF assms, of h item]
  have a: "hll_add h hll item = Inr ?hll'"
    and jl: "bucket_spec ?p (uint (h item)) < int (length (registers hll))"
    and j0: "0 \<le> bucket_spec ?p (uint (h item))" by simp_all
  have pr: "4 \<le> p_hll hll" "p_hll hll \<le> 18" using assms by (simp_all add: hll_wf_def)
  have old: "\<forall>r\<in>set (registers hll). 0 \<le> r \<and> r < 256"
    using assms by (simp add: hll_wf_def list_all_iff)
  have jn: "?j < length (registers hll)" using jl j0 by linarith
  then have o: "0 \<le> registers hll ! ?j \<and> registers hll ! ?j < 256" using old by simp
  have "1 \<le> ?rho \<and> ?rho \<le> 64 - int ?p + 1" using pr by (intro rho_spec_bounds) simp
  then have v: "0 \<le> ?v \<and> ?v < 256" using o pr by (auto simp: max_def)
  have "\<forall>r\<in>set ((registers hll)[?j := ?v]). 0 \<le> r \<and> r < 256"
  proof
    fix r assume "r \<in> set ((registers hll)[?j := ?v])"
    then have "r = ?v \<or> r \<in> set (registers hll)"
      using set_update_subset_insert[of "registers hll" ?j ?v] by blast
    then show "0 \<le> r \<and> r < 256" using old v by blast
  qed
  then have "list_all (\<lambda>r. 0 \<le> r \<and> r < 256) ((registers hll)[?j := ?v])"
    by (simp only: list_all_iff)
  then have "hll_wf ?hll'" using assms by (simp add: hll_wf_def)
  then show ?thesis using a by (intro exI[of _ ?hll']) simp
qed

lemma hll_add_all_wf:
  assumes "hll_wf hll"
  shows "\<exists>hll'. hll_add_all h hll items = Inr hll' \<and> hll_wf hll' \<and> p_hll hll' = p_hll hll"
  using assms
proof (induction items arbitrary: hll)
  case Nil
  then show ?case by simp
next
  case (Cons x xs)
  from hll_add_wf[OF Cons.prems, of h x] obtain hll1 where a: "hll_add h hll x = Inr hll1"
    and wf: "hll_wf hll1" and p: "p_hll hll1 = p_hll hll" by blast
  from Cons.IH[OF wf] show ?case using a p by simp
qed

lemma hll_add_idem:
  assumes "hll_add h hll item = Inr hll1"
  shows "hll_add h hll1 item = Inr hll1"
proof -
  define j where "j = drop_bit (nat (64 - p_hll hll)) (uint (h item))"
  define rho where "rho = (let w = push_bit (nat (p_hll hll)) (uint (h item))
                                     AND (push_bit 64 1 - 1)
                           in if w = 0 then 64 - p_hll hll + 1 else clz64 w + 1)"
  have step: "hll_add h H item =
      (if 64 - p_hll hll < 0 \<or> p_hll hll < 0 then Inl ValueError
       else case py_index (registers H) j of
              Inl e \<Rightarrow> Inl e
            | Inr k \<Rightarrow>
                if rho > registers H ! k
                then (if 0 \<le> rho \<and> rho < 256
                      then Inr (H\<lparr>registers := (registers H)[k := rho]\<rparr>)
                      else Inl ValueError)
                else Inr H)" if "p_hll H = p_hll hll" for H
    unfolding hll_add_def j_def rho_def Let_def that by (rule refl)
  from assms have g: "\<not> (64 - p_hll hll < 0 \<or> p_hll hll < 0)"
    unfolding step[OF refl] by (auto split: if_splits)
  from assms g obtain k where k: "py_index (registers hll) j = Inr k"
    unfolding step[OF refl] by (auto split: sum.splits if_splits)
  have kl: "k < length (registers hll)" using k by (rule py_index_lt)
  show ?thesis
  proof (cases "rho > registers hll ! k")
    case True
    then have e: "hll1 = hll\<lparr>registers := (registers hll)[k := rho]\<rparr>"
      using assms g k unfolding step[OF refl] by (auto split: if_splits)
    then have p1: "p_hll hll1 = p_hll hll" by simp
    have k1: "py_index (registers hll1) j = Inr k"
      using k py_index_length[of "registers hll1" "registers hll"] e by simp
    have "registers hll1 ! k = rho" using e kl by simp
    then have "\<not> rho > registers hll1 ! k" by simp
    then show ?thesis using g k1 unfolding step[OF p1] by simp
  next
    case False
    then have "hll1 = hll" using assms g k unfolding step[OF refl] by (auto split: if_splits)
    then show ?thesis using assms by simp
  qed
qed

lemma hll_add_repeat:
  assumes "hll_add h hll item = Inr hll1"
  shows "hll_add_all h hll1 (replicate n item) = Inr hll1"
  using hll_add_idem[OF assms] by (induction n) simp_all

lemma rho_spec_zero_suffix:
  assumes "p \<le> 64" "suffix_spec p x = 0"
  shows "rho_spec p x = 64 - int p + 1"
proof -
  have "int (leading_zero_bits (64 - p) 0) = int (64 - p) - bit_length 0"
    by (rule leading_zero_bits_eq) simp_all
  then show ?thesis using assms by (simp add: rho_spec_def bit_length_def bit_length_nat_0)
qed

lemma count_loop_eq:
  "count_loop a z rs =
     (a + (\<Sum>r\<leftarrow>rs. 2 powr (- real_of_int r)), z + int (length (filter (\<lambda>r. r = 0) rs)))"
  by (induction rs arbitrary: a z) (simp_all add: algebra_simps)

lemma inv_sum_pos:
  assumes "rs \<noteq> []"
  shows "0 < (\<Sum>r\<leftarrow>rs. 2 powr (- real_of_int r))"
proof -
  from assms obtain a rs' where e: "rs = a # rs'" by (cases rs) auto
  have "0 < 2 powr (- real_of_int a)" by simp
  moreover have "0 \<le> (\<Sum>r\<leftarrow>rs'. 2 powr (- real_of_int r))" by (rule sum_list_nonneg) auto
  ultimately have "0 < 2 powr (- real_of_int a) + (\<Sum>r\<leftarrow>rs'. 2 powr (- real_of_int r))"
    by (rule add_pos_nonneg)
  then show ?thesis unfolding e by simp
qed

lemma hll_count_char:
  assumes "hll_wf hll"
  shows "hll_count hll = (if 2 ^ 64 \<le> small_range_estimate hll then Inl ValueError
                          else Inr (count_spec hll))"
proof -
  let ?m = "real_of_int (m_hll hll)"
  let ?S = "\<Sum>r\<leftarrow>registers hll. 2 powr (- real_of_int r)"
  let ?Z = "zero_register_count hll"
  have mpos: "0 < ?m" using assms by (simp add: hll_wf_def)
  have ne: "registers hll \<noteq> []" using assms by (auto simp: hll_wf_def)
  have S: "0 < ?S" using ne by (rule inv_sum_pos)
  have cl: "count_loop 0 0 (registers hll) = (?S, int ?Z)"
    by (simp add: count_loop_eq zero_register_count_def)
  have raw: "alpha hll * real_of_int ((m_hll hll) ^ 2) / ?S = raw_estimate hll"
    by (simp add: raw_estimate_def)
  have lg: "0 < ?Z \<Longrightarrow> py_log (?m / real ?Z) = Inr (ln (?m / real ?Z))"
    using mpos by (simp add: py_log_def not_le)
  have first: "(if raw_estimate hll \<le> 2.5 * ?m \<and> int ?Z > 0
                then (case py_log (?m / real_of_int (int ?Z)) of
                        Inl err \<Rightarrow> Inl err
                      | Inr l \<Rightarrow> Inr (?m * l))
                else Inr (raw_estimate hll)) = Inr (small_range_estimate hll)"
    using lg by (auto simp: small_range_estimate_def)
  have second: "(if e1 > (1.0 / 30.0) * 2 ^ 64
                 then (case py_log (1.0 - e1 / 2 ^ 64) of
                         Inl err \<Rightarrow> Inl err
                       | Inr l \<Rightarrow> Inr (- (2 ^ 64) * l))
                 else Inr e1)
        = (if 2 ^ 64 \<le> e1 then Inl ValueError
           else Inr (if e1 > 2 ^ 64 / 30 then - (2 ^ 64) * ln (1 - e1 / 2 ^ 64) else e1))"
    for e1 :: real
    by (auto simp: py_log_def field_simps)
  have "hll_count hll =
      (case Inr (small_range_estimate hll) of
         Inl err \<Rightarrow> Inl err
       | Inr e1 \<Rightarrow>
           if e1 > (1.0 / 30.0) * 2 ^ 64
           then (case py_log (1.0 - e1 / 2 ^ 64) of
                   Inl err \<Rightarrow> Inl err
                 | Inr l \<Rightarrow> Inr (- (2 ^ 64) * l))
           else Inr e1)"
    unfolding hll_count_def cl Let_def prod.case raw first[symmetric] using S by simp
  then show ?thesis unfolding sum.case second by (simp add: count_spec_def)
qed

lemma alpha_else_bound:
  assumes "0 < (m::real)"
  shows "0.7213 / (1.0 + 1.079 / m) \<le> 2.5"
proof -
  have "0 \<le> 1.079 / m" using assms by simp
  then have "(1::real) \<le> 1.0 + 1.079 / m" by simp
  then have "0.7213 / (1.0 + 1.079 / m) \<le> 0.7213 / (1::real)"
    using assms by (intro frac_le) simp_all
  then show ?thesis by simp
qed

lemma hll_init_alpha:
  assumes "HyperLogLog_init p = Inr hll"
  shows "alpha hll \<le> 2.5"
proof -
  have r: "4 \<le> p" "p \<le> 18" using assms by (auto simp: HyperLogLog_init_def split: if_splits)
  let ?m = "push_bit (nat p) (1::int)"
  have mp: "0 < real_of_int ?m" by (simp add: push_bit_eq_mult)
  have "map_sum id alpha (HyperLogLog_init p) =
          Inr (if ?m = 16 then 0.673 else if ?m = 32 then 0.697 else if ?m = 64 then 0.709
               else 0.7213 / (1.0 + 1.079 / real_of_int ?m))"
    using r by (simp only: HyperLogLog_init_def Let_def) simp
  then have a: "alpha hll = (if ?m = 16 then 0.673 else if ?m = 32 then 0.697
                             else if ?m = 64 then 0.709
                             else 0.7213 / (1.0 + 1.079 / real_of_int ?m))"
    using assms by simp
  show ?thesis unfolding a using alpha_else_bound[OF mp] by simp
qed

lemma hll_count_fresh:
  assumes "HyperLogLog_init p = Inr hll0"
  shows "hll_count hll0 = Inr 0"
proof -
  from hll_init_wf[OF assms] have wf: "hll_wf hll0"
    and regs: "registers hll0 = replicate (2 ^ nat p) 0" and m: "m_hll hll0 = 2 ^ nat p"
    by simp_all
  let ?m = "real_of_int (m_hll hll0)"
  have mr: "?m = 2 ^ nat p" using m by simp
  have mpos: "0 < ?m" using mr by simp
  have S: "(\<Sum>r\<leftarrow>registers hll0. 2 powr (- real_of_int r)) = ?m"
    unfolding regs mr by (simp add: sum_list_replicate)
  have Z: "zero_register_count hll0 = 2 ^ nat p"
    by (simp add: zero_register_count_def regs)
  have raw: "raw_estimate hll0 = alpha hll0 * ?m"
    unfolding raw_estimate_def S using mpos by (simp add: power2_eq_square)
  have "alpha hll0 * ?m \<le> 2.5 * ?m"
    using hll_init_alpha[OF assms] mpos by (intro mult_right_mono) simp_all
  then have c: "raw_estimate hll0 \<le> 2.5 * ?m \<and> 1 \<le> zero_register_count hll0"
    using raw Z by simp
  have "real (zero_register_count hll0) = ?m" using Z mr by simp
  then have "small_range_estimate hll0 = ?m * ln (?m / ?m)"
    using c by (simp add: small_range_estimate_def)
  then have s: "small_range_estimate hll0 = 0" using mpos by simp
  show ?thesis using hll_count_char[OF wf] s by (simp add: count_spec_def)
qed

lemma sample_bucket: "bucket_spec (nat 4) (uint (sample_hash64 ''abc'')) = 3"
  by (simp add: bucket_spec_def sample_hash64_def drop_bit_int_def)

lemma sample_rho: "rho_spec (nat 4) (uint (sample_hash64 ''abc'')) = 59"
  by code_simp

lemma sample_bucket_ab: "bucket_spec (nat 4) (uint (sample_hash64 ''ab'')) = 2"
  by (simp add: bucket_spec_def sample_hash64_def drop_bit_int_def)

lemma sample_rho_ab: "rho_spec (nat 4) (uint (sample_hash64 ''ab'')) = 59"
  by code_simp

lemma sample_add_abc:
  "hll_add_all sample_hash64
        \<lparr>p_hll = 4, m_hll = 16,
         registers = [0, 0, 0, 0, 0, 0, 0, 0, 0, 0, 0, 0, 0, 0, 0, 0], alpha = 0.673\<rparr>
        [''abc'']
       = Inr \<lparr>p_hll = 4, m_hll = 16,
              registers = [0, 0, 0, 59, 0, 0, 0, 0, 0, 0, 0, 0, 0, 0, 0, 0], alpha = 0.673\<rparr>"
proof -
  let ?hll0 = "\<lparr>p_hll = 4, m_hll = 16,
                 registers = [0, 0, 0, 0, 0, 0, 0, 0, 0, 0, 0, 0, 0, 0, 0, 0::int],
                 alpha = 0.673::real\<rparr>"
  have h1: "HyperLogLog_init 4 = Inr ?hll0"
    by (simp add: HyperLogLog_init_def Let_def eval_nat_numeral)
  have wf: "hll_wf ?hll0" by (rule hll_init_wf[OF h1, THEN conjunct1])
  have "hll_add sample_hash64 ?hll0 ''abc'' =
          Inr \<lparr>p_hll = 4, m_hll = 16,
              registers = [0, 0, 0, 59, 0, 0, 0, 0, 0, 0, 0, 0, 0, 0, 0, 0], alpha = 0.673\<rparr>"
    using hll_add_char[OF wf, of sample_hash64 "''abc''"] sample_bucket sample_rho
    by (simp add: eval_nat_numeral)
  then show ?thesis by simp
qed






subsection \<open>What add does to the registers\<close>

text \<open>
  Claim C4. Take an estimator built by the constructor with precision \<open>p\<close>, after any
  earlier \<open>add\<close> calls, and let \<open>x\<close> be the 64-bit hash of the item. \<open>add\<close> returns normally.
  With \<open>j\<close> the top \<open>p\<close> bits of \<open>x\<close> (a valid register index) and \<open>rho\<close> one more than the
  number of leading zero bits of the remaining \<open>64 - p\<close> bits seen as a value of \<open>64 - p\<close>
  bits, the registers afterwards are the registers before with register \<open>j\<close> replaced by
  the maximum of its old value and \<open>rho\<close>. Every other register, and \<open>p\<close>, \<open>m\<close> and \<open>alpha\<close>,
  are unchanged. When the suffix is entirely zero, \<open>rho\<close> is \<open>(64 - p) + 1\<close>.
\<close>

theorem hll_add_updates_one_register:
  assumes "HyperLogLog_init p = Inr hll0" and "hll_add_all h hll0 earlier = Inr hll"
  shows "\<exists>hll'. hll_add h hll item = Inr hll'
           \<and> 0 \<le> bucket_spec (nat p) (uint (h item))
           \<and> bucket_spec (nat p) (uint (h item)) < int (length (registers hll))
           \<and> length (registers hll) = 2 ^ nat p
           \<and> registers hll' = (registers hll)
                 [nat (bucket_spec (nat p) (uint (h item))) :=
                    max (registers hll ! nat (bucket_spec (nat p) (uint (h item))))
                        (rho_spec (nat p) (uint (h item)))]
           \<and> (\<forall>i. i \<noteq> nat (bucket_spec (nat p) (uint (h item)))
                  \<longrightarrow> registers hll' ! i = registers hll ! i)
           \<and> (suffix_spec (nat p) (uint (h item)) = 0
                  \<longrightarrow> rho_spec (nat p) (uint (h item)) = 64 - p + 1)
           \<and> p_hll hll' = p_hll hll \<and> m_hll hll' = m_hll hll \<and> alpha hll' = alpha hll"
proof -
  let ?j = "nat (bucket_spec (nat p) (uint (h item)))"
  let ?v = "max (registers hll ! ?j) (rho_spec (nat p) (uint (h item)))"
  let ?hll' = "hll\<lparr>registers := (registers hll)[?j := ?v]\<rparr>"
  from hll_init_wf[OF assms(1)] have wf0: "hll_wf hll0" and p0: "p_hll hll0 = p"
    and pr: "4 \<le> p" "p \<le> 18" by simp_all
  from hll_add_all_wf[OF wf0, of h earlier] assms(2)
  have wf: "hll_wf hll" and pp: "p_hll hll = p" using p0 by simp_all
  from hll_add_char[OF wf, of h item]
  have a: "hll_add h hll item = Inr ?hll'"
    and b: "0 \<le> bucket_spec (nat p) (uint (h item))"
           "bucket_spec (nat p) (uint (h item)) < int (length (registers hll))"
    unfolding pp by simp_all
  have len: "length (registers hll) = 2 ^ nat p" using wf pp by (simp add: hll_wf_def)
  have oth: "\<forall>i. i \<noteq> ?j \<longrightarrow> registers ?hll' ! i = registers hll ! i" by simp
  have z: "suffix_spec (nat p) (uint (h item)) = 0
             \<longrightarrow> rho_spec (nat p) (uint (h item)) = 64 - p + 1"
  proof
    assume "suffix_spec (nat p) (uint (h item)) = 0"
    then have "rho_spec (nat p) (uint (h item)) = 64 - int (nat p) + 1"
      using pr by (intro rho_spec_zero_suffix) simp_all
    then show "rho_spec (nat p) (uint (h item)) = 64 - p + 1" using pr by simp
  qed
  show ?thesis using a b len oth z by (intro exI[of _ ?hll']) simp
qed

theorem hll_add_updates_one_register_witness:
  "HyperLogLog_init 4 =
     Inr \<lparr>p_hll = 4, m_hll = 16,
          registers = [0, 0, 0, 0, 0, 0, 0, 0, 0, 0, 0, 0, 0, 0, 0, 0], alpha = 0.673\<rparr>
   \<and> hll_add_all sample_hash64
        \<lparr>p_hll = 4, m_hll = 16,
         registers = [0, 0, 0, 0, 0, 0, 0, 0, 0, 0, 0, 0, 0, 0, 0, 0], alpha = 0.673\<rparr>
        [''abc'']
       = Inr \<lparr>p_hll = 4, m_hll = 16,
              registers = [0, 0, 0, 59, 0, 0, 0, 0, 0, 0, 0, 0, 0, 0, 0, 0], alpha = 0.673\<rparr>
   \<and> (\<exists>hll'. hll_add sample_hash64
                \<lparr>p_hll = 4, m_hll = 16,
                 registers = [0, 0, 0, 59, 0, 0, 0, 0, 0, 0, 0, 0, 0, 0, 0, 0], alpha = 0.673\<rparr>
                ''ab'' = Inr hll'
            \<and> registers hll' = [0, 0, 59, 59, 0, 0, 0, 0, 0, 0, 0, 0, 0, 0, 0, 0])"
proof -
  let ?hll0 = "\<lparr>p_hll = 4, m_hll = 16,
                 registers = [0, 0, 0, 0, 0, 0, 0, 0, 0, 0, 0, 0, 0, 0, 0, 0::int],
                 alpha = 0.673::real\<rparr>"
  let ?hll1 = "\<lparr>p_hll = 4, m_hll = 16,
                 registers = [0, 0, 0, 59, 0, 0, 0, 0, 0, 0, 0, 0, 0, 0, 0, 0::int],
                 alpha = 0.673::real\<rparr>"
  have h1: "HyperLogLog_init 4 = Inr ?hll0"
    by (simp add: HyperLogLog_init_def Let_def eval_nat_numeral)
  have h2: "hll_add_all sample_hash64 ?hll0 [''abc''] = Inr ?hll1" by (rule sample_add_abc)
  from hll_add_updates_one_register [OF h1 h2, of "''ab''"]
  obtain hll' where a: "hll_add sample_hash64 ?hll1 ''ab'' = Inr hll'"
    and r: "registers hll' = (registers ?hll1)
                 [nat (bucket_spec (nat 4) (uint (sample_hash64 ''ab''))) :=
                    max (registers ?hll1 ! nat (bucket_spec (nat 4) (uint (sample_hash64 ''ab''))))
                        (rho_spec (nat 4) (uint (sample_hash64 ''ab'')))]"
    by blast
  have "registers hll' = [0, 0, 59, 59, 0, 0, 0, 0, 0, 0, 0, 0, 0, 0, 0, 0]"
    unfolding r sample_bucket_ab sample_rho_ab by (simp add: eval_nat_numeral)
  then show ?thesis using h1 h2 a by blast
qed

subsection \<open>The estimate\<close>



subsection \<open>A fresh estimator, and adding an item again\<close>

text \<open>
  Claim C6. For every precision \<open>p\<close> from 4 to 18 the constructor succeeds, and \<open>count\<close> on
  the fresh estimator returns 0 (every register is zero, so the linear-counting estimate
  \<open>m * ln(m / m)\<close> is taken). After any earlier \<open>add\<close> calls and one \<open>add\<close> of an item, adding
  that same item any number of times again returns normally and leaves the estimator as
  it was: the registers are the same and \<open>count\<close> returns the same value.
\<close>

theorem hll_fresh_zero_and_add_idempotent:
  assumes "4 \<le> p" and "p \<le> 18"
  shows "\<exists>hll0 hll hll1 hll2.
           HyperLogLog_init p = Inr hll0 \<and> hll_count hll0 = Inr 0
         \<and> hll_add_all h hll0 earlier = Inr hll
         \<and> hll_add h hll item = Inr hll1
         \<and> hll_add_all h hll1 (replicate n item) = Inr hll2
         \<and> registers hll2 = registers hll1
         \<and> hll_count hll2 = hll_count hll1"
proof -
  have "\<exists>hll0. HyperLogLog_init p = Inr hll0"
    using assms by (simp add: HyperLogLog_init_def Let_def)
  then obtain hll0 where i: "HyperLogLog_init p = Inr hll0" by blast
  have c: "hll_count hll0 = Inr 0" using i by (rule hll_count_fresh)
  have wf0: "hll_wf hll0" using hll_init_wf[OF i] by simp
  from hll_add_all_wf[OF wf0, of h earlier] obtain hll where
    a: "hll_add_all h hll0 earlier = Inr hll" and wf: "hll_wf hll" by blast
  from hll_add_wf[OF wf, of h item] obtain hll1 where b: "hll_add h hll item = Inr hll1"
    by blast
  have r: "hll_add_all h hll1 (replicate n item) = Inr hll1" using b by (rule hll_add_repeat)
  show ?thesis using i c a b r by blast
qed

theorem hll_fresh_zero_and_add_idempotent_witness:
  "(4::int) \<le> 4 \<and> (4::int) \<le> 18
   \<and> (\<exists>hll0 hll hll1 hll2.
         HyperLogLog_init 4 = Inr hll0 \<and> hll_count hll0 = Inr 0
       \<and> hll_add_all sample_hash64 hll0 [''xy''] = Inr hll
       \<and> hll_add sample_hash64 hll ''abc'' = Inr hll1
       \<and> hll_add_all sample_hash64 hll1 (replicate 3 ''abc'') = Inr hll2
       \<and> registers hll2 = registers hll1
       \<and> hll_count hll2 = hll_count hll1)"
proof -
  have a: "(4::int) \<le> 4" and b: "(4::int) \<le> 18" by simp_all
  show ?thesis
    using a b hll_fresh_zero_and_add_idempotent [OF a b, of sample_hash64 "[''xy'']" "''abc''" 3]
    by blast
qed

section \<open>Properties of the log reader\<close>

subsection \<open>Auxiliary facts about strip\<close>

lemma strip_idem: "strip (strip s) = strip s"
proof -
  let ?a = "dropWhile py_isspace s"
  let ?b = "dropWhile py_isspace (rev ?a)"
  have sb: "strip s = rev ?b" by (simp add: strip_def)
  have d1: "dropWhile py_isspace (rev ?b) = rev ?b"
  proof (cases "?b = []")
    case True
    show ?thesis unfolding True by simp
  next
    case False
    have an: "?a \<noteq> []"
    proof
      assume "?a = []"
      then have "?b = []" by (simp only: rev.simps dropWhile.simps)
      then show False using False by (rule notE[rotated])
    qed
    have "rev ?a = takeWhile py_isspace (rev ?a) @ ?b" by simp
    then have "last (rev ?a) = last ?b" using False by (metis last_appendR)
    then have "last ?b = hd ?a" using an by (simp add: last_rev)
    moreover have "\<not> py_isspace (hd ?a)" using an by (rule hd_dropWhile)
    ultimately have "\<not> py_isspace (hd (rev ?b))" using False by (simp add: hd_rev)
    then show ?thesis using False by (cases "rev ?b") simp_all
  qed
  have "strip (rev ?b) = rev (dropWhile py_isspace (rev (dropWhile py_isspace (rev ?b))))"
    by (simp only: strip_def)
  also have "\<dots> = rev (dropWhile py_isspace ?b)" by (simp only: d1 rev_rev_ident)
  also have "\<dots> = rev ?b" by simp
  finally show ?thesis unfolding sb .
qed

lemma strip_prefix_nonempty:
  assumes "strip (split_first x) \<noteq> ''''"
  shows "strip x \<noteq> ''''"
proof
  assume "strip x = ''''"
  then have "\<forall>c\<in>set x. py_isspace c" by (simp only: strip_empty_iff)
  then have "\<forall>c\<in>set (split_first x). py_isspace c"
    unfolding split_first_def by (meson set_takeWhileD)
  then have "strip (split_first x) = ''''" by (simp only: strip_empty_iff)
  then show False using assms by simp
qed

lemma validate_ip_strip:
  "validate_ip valid (strip t) = (if valid_address valid (strip t) then Some (strip t) else None)"
  by (simp add: validate_ip_def valid_address_def strip_idem Let_def)

lemma validate_ip_raw:
  "validate_ip valid r = (if valid_address valid (strip r) then Some (strip r) else None)"
  by (simp add: validate_ip_def valid_address_def Let_def)

lemma xff_branch:
  "(if strip x \<noteq> '''' then validate_ip valid (strip (split_first x)) else None)
     = (if x \<noteq> '''' \<and> valid_address valid (strip (split_first x))
        then Some (strip (split_first x)) else None)"
proof (cases "valid_address valid (strip (split_first x))")
  case True
  then have "strip (split_first x) \<noteq> ''''" by (simp add: valid_address_def)
  then have "strip x \<noteq> ''''" by (rule strip_prefix_nonempty)
  moreover from this have "x \<noteq> ''''" by (auto simp: strip_def)
  ultimately show ?thesis using True by (simp add: validate_ip_strip)
next
  case False
  then show ?thesis by (simp add: validate_ip_strip)
qed

lemma ra_branch:
  "(if strip r \<noteq> '''' then validate_ip valid r else None)
     = (if valid_address valid (strip r) then Some (strip r) else None)"
  by (simp add: validate_ip_raw valid_address_def)

lemma remote_part:
  "(let ra = dict_get obj ''remote_addr'' (JStr '''');
        ip2 = (case ra of
                 JStr r \<Rightarrow> if strip r \<noteq> '''' then validate_ip valid r else None
               | JOther \<Rightarrow> None)
    in if truthy ip2 then ip2 else None) = remote_addr_spec valid obj"
proof (cases "obj ''remote_addr''")
  case None
  then show ?thesis
    by (simp add: dict_get_def remote_addr_spec_def strip_def)
next
  case (Some v)
  then show ?thesis
    by (cases v) (simp_all add: dict_get_def remote_addr_spec_def ra_branch valid_address_def)
qed

subsection \<open>The priority rule\<close>

text \<open>
  Claim C8. For every parsed record, \<open>_extract_client_ip\<close> returns the trimmed first
  comma-separated token of the forwarded-for field when that field is a non-empty string
  and the token is a (non-empty) syntactically valid address; otherwise the remote-address
  field, accepted by the same check \<open>_validate_ip\<close>, which trims the value and returns it
  trimmed when it is a valid address; otherwise \<open>None\<close>, and the record contributes nothing.
  A field that is absent, or whose value is not a string, is passed over.
\<close>

theorem extract_client_ip_priority:
  "extract_client_ip valid obj = client_ip_spec valid obj"
proof (cases "obj ''http_x_forwarded_for''")
  case None
  then have x: "dict_get obj ''http_x_forwarded_for'' (JStr '''') = JStr ''''"
    by (simp add: dict_get_def)
  have "strip '''' = ''''" by (simp add: strip_def)
  then show ?thesis
    unfolding extract_client_ip_def remote_part x client_ip_spec_def
    using None by (simp add: Let_def)
next
  case (Some v)
  then have x: "dict_get obj ''http_x_forwarded_for'' (JStr '''') = v"
    by (simp add: dict_get_def)
  show ?thesis
  proof (cases v)
    case (JStr s)
    show ?thesis
      unfolding extract_client_ip_def remote_part x client_ip_spec_def
      using Some JStr by (simp add: Let_def xff_branch valid_address_def)
  next
    case JOther
    show ?thesis
      unfolding extract_client_ip_def remote_part x client_ip_spec_def
      using Some JOther by (simp add: Let_def)
  qed
qed

theorem extract_client_ip_priority_witness:
  "extract_client_ip sample_valid
     [''http_x_forwarded_for'' \<mapsto> JStr ''203.0.113.5, 10.0.0.1'',
      ''remote_addr'' \<mapsto> JStr ''10.0.0.2''] = Some ''203.0.113.5''
   \<and> extract_client_ip sample_valid
     [''http_x_forwarded_for'' \<mapsto> JStr ''not-an-ip'',
      ''remote_addr'' \<mapsto> JStr '' 198.51.100.7''] = Some ''198.51.100.7''
   \<and> extract_client_ip sample_valid
     [''http_x_forwarded_for'' \<mapsto> JOther, ''remote_addr'' \<mapsto> JStr ''example''] = None"
proof -
  have t1: "strip (split_first ''203.0.113.5, 10.0.0.1'') = ''203.0.113.5''"
    by (simp add: strip_def split_first_def py_isspace_def)
  have t2: "strip (split_first ''not-an-ip'') = ''not-an-ip''"
    by (simp add: strip_def split_first_def py_isspace_def)
  have t3: "strip '' 198.51.100.7'' = ''198.51.100.7''"
    by (simp add: strip_def py_isspace_def)
  have t4: "strip ''example'' = ''example''"
    by (simp add: strip_def py_isspace_def)
  have e1: "client_ip_spec sample_valid
     [''http_x_forwarded_for'' \<mapsto> JStr ''203.0.113.5, 10.0.0.1'',
      ''remote_addr'' \<mapsto> JStr ''10.0.0.2''] = Some ''203.0.113.5''"
    by (simp add: client_ip_spec_def t1 valid_address_def sample_valid_def)
  have e2: "client_ip_spec sample_valid
     [''http_x_forwarded_for'' \<mapsto> JStr ''not-an-ip'',
      ''remote_addr'' \<mapsto> JStr '' 198.51.100.7''] = Some ''198.51.100.7''"
    by (simp add: client_ip_spec_def remote_addr_spec_def t2 t3 valid_address_def
        sample_valid_def)
  have e3: "client_ip_spec sample_valid
     [''http_x_forwarded_for'' \<mapsto> JOther, ''remote_addr'' \<mapsto> JStr ''example''] = None"
    by (simp add: client_ip_spec_def remote_addr_spec_def t4 valid_address_def
        sample_valid_def)
  show ?thesis
    using e1 e2 e3 by (simp only: extract_client_ip_priority)
qed

end
